theory Spec2Isabelle
  imports Complex_Main "HOL-Library.List_Lexorder"
begin

section \<open>Bridges of an assembly graph: a model of lib/bridge.py\<close>

text \<open>
  The module is Python 2 (\<open>itervalues\<close>, \<open>from __future__ import division\<close>): \<open>/\<close> is
  true division and raises ZeroDivisionError on a zero divisor, \<open>round\<close> rounds halves
  away from zero. Python floats are modelled by the reals, Python ints by \<open>int\<close>. Every
  exception the module can raise is a value of \<open>error\<close>, and a function that can raise
  returns \<open>error + 'a\<close>.
\<close>

subsection \<open>Errors\<close>

datatype error = IndexError | KeyError | ZeroDivisionError | ValueError | UnboundLocalError

definition bind :: "error + 'a \<Rightarrow> ('a \<Rightarrow> error + 'b) \<Rightarrow> error + 'b" where
  "bind m f = (case m of Inl e \<Rightarrow> Inl e | Inr v \<Rightarrow> f v)"

subsection \<open>The collaborators: segments and the graph\<close>

text \<open>
  The segment and graph classes live in other modules; bridge.py reads the attributes
  and calls the methods below, which are fields here. \<open>get_length_no_overlap\<close> takes the
  graph's overlap; \<open>segments\<close> is the dictionary from unsigned segment number to segment
  (a missing key raises KeyError); \<open>paths\<close> is the dictionary of SPAdes contig paths, kept
  as an association list whose order stands for the order of \<open>itervalues\<close>.
\<close>

record segment =
  number :: int
  depth :: real
  get_length :: int
  get_length_no_overlap :: "int \<Rightarrow> int"

record graph =
  segments :: "int \<rightharpoonup> segment"
  overlap :: int
  paths :: "(string \<times> int list) list"
  get_path_sequence :: "int list \<Rightarrow> string"
  get_connected_segments :: "int \<Rightarrow> int list"
  find_all_simple_loops :: "(int \<times> int \<times> int \<times> int) list"

definition lookup_segment :: "graph \<Rightarrow> int \<Rightarrow> error + segment" where
  "lookup_segment g n = (case segments g n of None \<Rightarrow> Inl KeyError | Some s \<Rightarrow> Inr s)"

subsection \<open>Scoring primitives\<close>

text \<open>
  \<open>get_num_agreement\<close>, lines 521 to 533. The last line divides by \<open>max(num_1, num_2)\<close>,
  which is zero when one number is zero and the other is negative (their product is not
  below zero, so the early return is not taken).
\<close>

definition get_num_agreement :: "real \<Rightarrow> real \<Rightarrow> error + real" where
  "get_num_agreement num_1 num_2 =
     (if num_1 = 0 \<and> num_2 = 0 then Inr 1
      else
        let n1 = (if num_1 < 0 \<and> num_2 < 0 then - num_1 else num_1);
            n2 = (if num_1 < 0 \<and> num_2 < 0 then - num_2 else num_2)
        in if n1 * n2 < 0 then Inr 0
           else if max n1 n2 = 0 then Inl ZeroDivisionError
           else Inr (min n1 n2 / max n1 n2))"

definition weighted_average :: "real \<Rightarrow> real \<Rightarrow> real \<Rightarrow> real \<Rightarrow> error + real" where
  "weighted_average num_1 num_2 weight_1 weight_2 =
     (let weight_sum = weight_1 + weight_2
      in if weight_sum = 0 then Inl ZeroDivisionError
         else Inr (num_1 * (weight_1 / weight_sum) + num_2 * (weight_2 / weight_sum)))"

definition get_mean_depth :: "segment \<Rightarrow> segment \<Rightarrow> graph \<Rightarrow> error + real" where
  "get_mean_depth seg_1 seg_2 g =
     weighted_average (depth seg_1) (depth seg_2)
       (of_int (get_length_no_overlap seg_1 (overlap g)))
       (of_int (get_length_no_overlap seg_2 (overlap g)))"

subsection \<open>Self-containment\<close>

definition path_is_self_contained :: "int list \<Rightarrow> int \<Rightarrow> int \<Rightarrow> graph \<Rightarrow> bool" where
  "path_is_self_contained path start end' g =
     (let all_numbers_in_path = \<bar>start\<bar> # \<bar>end'\<bar> # map abs path
      in list_all (\<lambda>segment.
           list_all (\<lambda>connected_segment. connected_segment \<in> set all_numbers_in_path)
             (get_connected_segments g segment)) path)"

subsection \<open>Segment-pair canonicalisation\<close>

definition flip_segment_order :: "int \<Rightarrow> int \<Rightarrow> (int \<times> int) \<times> bool" where
  "flip_segment_order seg_num_1 seg_num_2 =
     (let flip =
        (if seg_num_1 > 0 \<and> seg_num_2 > 0 then False
         else if seg_num_1 < 0 \<and> seg_num_2 < 0 then True
         else if seg_num_1 < 0 then \<bar>seg_num_1\<bar> > \<bar>seg_num_2\<bar>
         else \<bar>seg_num_2\<bar> > \<bar>seg_num_1\<bar>)
      in if flip then ((- seg_num_2, - seg_num_1), True)
         else ((seg_num_1, seg_num_2), False))"

subsection \<open>Bridges\<close>

text \<open>
  The three bridge classes share the members \<open>start_segment\<close>, \<open>end_segment\<close>,
  \<open>graph_path\<close>, \<open>bridge_sequence\<close>, \<open>depth\<close> and \<open>quality\<close>; the long read bridge has
  more. The member \<open>depth\<close> is the field \<open>bridge_depth\<close> (a segment already has a field
  \<open>depth\<close>). \<open>start_segment\<close> and \<open>end_segment\<close> start as \<open>None\<close>.
\<close>

record bridge =
  start_segment :: "int option"
  end_segment :: "int option"
  graph_path :: "int list"
  bridge_sequence :: string
  bridge_depth :: real
  quality :: real

record long_read_bridge = bridge +
  read_names :: "string list"
  read_sequences :: "string list"
  read_qualities :: "string list"
  read_lengths :: "int list"
  start_partial_read_names :: "string list"
  start_partial_sequences :: "string list"
  start_partial_qualities :: "string list"
  end_partial_read_names :: "string list"
  end_partial_sequences :: "string list"
  end_partial_qualities :: "string list"
  consensus_sequence :: string
  consensus_length :: real

subsubsection \<open>SpadesContigBridge\<close>

text \<open>
  Lines 59 to 65: the loop over \<open>graph_path_pos_nums\<close>. The list is
  \<open>list(set([abs(x) for x in self.graph_path]))\<close>, modelled by \<open>remdups\<close> (the order of
  a set does not matter to a product), and the occurrences of a segment are counted in
  that same list: \<open>graph_path_pos_nums.count(path_segment)\<close>.
\<close>

fun scale_by_path_depths :: "graph \<Rightarrow> real \<Rightarrow> int list \<Rightarrow> int list \<Rightarrow> real \<Rightarrow> error + real" where
  "scale_by_path_depths g d graph_path_pos_nums [] q = Inr q"
| "scale_by_path_depths g d graph_path_pos_nums (path_segment # rest) q =
     (case lookup_segment g path_segment of
        Inl e \<Rightarrow> Inl e
      | Inr seg \<Rightarrow>
          (let actual_depth = depth seg;
               expected_depth = of_nat (count_list graph_path_pos_nums path_segment) * d
           in case get_num_agreement actual_depth expected_depth of
                Inl e \<Rightarrow> Inl e
              | Inr agreement \<Rightarrow>
                  scale_by_path_depths g d graph_path_pos_nums rest (q * agreement)))"

text \<open>Lines 59 to 65 as a whole: the scaling applies to a self-contained path only.\<close>

definition scale_by_depth_consistency ::
  "graph \<Rightarrow> int list \<Rightarrow> int \<Rightarrow> int \<Rightarrow> real \<Rightarrow> real \<Rightarrow> error + real" where
  "scale_by_depth_consistency g path start end' d q =
     (if path_is_self_contained path start end' g
      then let graph_path_pos_nums = remdups (map abs path)
           in scale_by_path_depths g d graph_path_pos_nums graph_path_pos_nums q
      else Inr q)"

text \<open>
  The constructor, lines 21 to 65. \<open>pop(0)\<close> and \<open>pop()\<close> raise IndexError on an empty
  list.
\<close>

definition SpadesContigBridge :: "graph \<Rightarrow> int list \<Rightarrow> error + bridge" where
  "SpadesContigBridge g spades_contig_path =
     (case spades_contig_path of
        [] \<Rightarrow> Inl IndexError
      | start # popped \<Rightarrow>
          if popped = [] then Inl IndexError
          else
            let end' = last popped;
                path = butlast popped;
                sequence = get_path_sequence g path
            in
            bind (lookup_segment g \<bar>start\<bar>) (\<lambda>start_seg.
            bind (lookup_segment g \<bar>end'\<bar>) (\<lambda>end_seg.
            bind (get_num_agreement (depth start_seg) (depth end_seg)) (\<lambda>depth_agreement.
            bind (get_mean_depth start_seg end_seg g) (\<lambda>d.
            bind (scale_by_depth_consistency g path start end' d
                    (20 * (depth_agreement * depth_agreement))) (\<lambda>q.
            Inr \<lparr>start_segment = Some start, end_segment = Some end', graph_path = path,
                 bridge_sequence = sequence, bridge_depth = d, quality = q\<rparr>))))))"

subsubsection \<open>LongReadBridge\<close>

text \<open>The constructor, lines 77 to 122, ignores its two arguments and sets every member.\<close>

definition LongReadBridge :: long_read_bridge where
  "LongReadBridge =
     \<lparr>start_segment = None, end_segment = None, graph_path = [], bridge_sequence = [],
      bridge_depth = 0, quality = 1,
      read_names = [], read_sequences = [], read_qualities = [], read_lengths = [],
      start_partial_read_names = [], start_partial_sequences = [],
      start_partial_qualities = [], end_partial_read_names = [],
      end_partial_sequences = [], end_partial_qualities = [],
      consensus_sequence = [], consensus_length = 0\<rparr>"

subsubsection \<open>LoopUnrollingBridge\<close>

text \<open>
  Python 2's \<open>round\<close> (halves away from zero) and \<open>int\<close> on a float (truncation towards
  zero), both read as integers.
\<close>

definition py_round :: "real \<Rightarrow> int" where
  "py_round x = (if 0 \<le> x then \<lfloor>x + 1 / 2\<rfloor> else \<lceil>x - 1 / 2\<rceil>)"

definition py_int :: "real \<Rightarrow> int" where
  "py_int x = (if 0 \<le> x then \<lfloor>x\<rfloor> else \<lceil>x\<rceil>)"

text \<open>
  Lines 209 to 225: the four segments, the depth agreement of the end points, the mean
  depth and the mean loop count. The result is the triple
  \<open>(depth_agreement, self.depth, mean_loop_count)\<close>.
\<close>

definition loop_depth_estimates ::
  "graph \<Rightarrow> int \<Rightarrow> int \<Rightarrow> int \<Rightarrow> int \<Rightarrow> error + (real \<times> real \<times> real)" where
  "loop_depth_estimates g start end' middle repeat =
     bind (lookup_segment g \<bar>start\<bar>) (\<lambda>start_seg.
     bind (lookup_segment g \<bar>end'\<bar>) (\<lambda>end_seg.
     bind (lookup_segment g \<bar>middle\<bar>) (\<lambda>middle_seg.
     bind (lookup_segment g \<bar>repeat\<bar>) (\<lambda>repeat_seg.
     bind (get_num_agreement (depth start_seg) (depth end_seg)) (\<lambda>depth_agreement.
     bind (get_mean_depth start_seg end_seg g) (\<lambda>d.
     if d = 0 then Inl ZeroDivisionError
     else
       let loop_count_by_middle = depth middle_seg / d;
           loop_count_by_repeat = (depth repeat_seg - d) / d
       in
       bind (weighted_average loop_count_by_middle loop_count_by_repeat
               (of_int (get_length_no_overlap middle_seg (overlap g)))
               (of_int (get_length_no_overlap repeat_seg (overlap g)))) (\<lambda>mean_loop_count.
       Inr (depth_agreement, d, mean_loop_count))))))))"

text \<open>Lines 229 to 236: the loop count and the closeness to a whole number.\<close>

definition loop_count_of :: "real \<Rightarrow> int" where
  "loop_count_of mean_loop_count =
     (if mean_loop_count < 1 then 1 else py_round mean_loop_count)"

definition closeness_to_whole_num :: "real \<Rightarrow> real" where
  "closeness_to_whole_num mean_loop_count =
     (if mean_loop_count < 1 then mean_loop_count
      else
        let fractional_part = mean_loop_count - of_int \<lfloor>mean_loop_count\<rfloor>;
            distance_from_whole_num = min fractional_part (1 - fractional_part)
        in 1 - 2 * distance_from_whole_num)"

text \<open>Lines 243 to 245: \<open>[repeat]\<close>, then \<open>[middle, repeat]\<close> appended \<open>loop_count\<close> times.\<close>

definition unrolled_path :: "int \<Rightarrow> int \<Rightarrow> int \<Rightarrow> int list" where
  "unrolled_path middle repeat loop_count =
     fold (\<lambda>_ path. path @ [middle, repeat]) [0 ..< nat loop_count] [repeat]"

text \<open>
  The constructor, lines 184 to 246. \<open>(1 / loop_count) ** 0.5\<close> is the square root; the
  division would raise on a loop count of zero.
\<close>

definition LoopUnrollingBridge :: "graph \<Rightarrow> int \<Rightarrow> int \<Rightarrow> int \<Rightarrow> int \<Rightarrow> error + bridge" where
  "LoopUnrollingBridge g start end' middle repeat =
     bind (loop_depth_estimates g start end' middle repeat) (\<lambda>(depth_agreement, d, mean_loop_count).
       let q1 = 10 * (depth_agreement * depth_agreement);
           loop_count = loop_count_of mean_loop_count;
           q2 = q1 * closeness_to_whole_num mean_loop_count
       in
       if loop_count = 0 then Inl ZeroDivisionError
       else
         let loop_count_penalty = sqrt (1 / of_int loop_count);
             q3 = q2 * loop_count_penalty;
             path = unrolled_path middle repeat loop_count
         in Inr \<lparr>start_segment = Some start, end_segment = Some end', graph_path = path,
                 bridge_sequence = get_path_sequence g path, bridge_depth = d,
                 quality = q3\<rparr>)"

subsection \<open>Strings of signed numbers\<close>

text \<open>
  The contig bridge builder writes a path as \<open>','.join([str(x) for x in path])\<close> and reads
  it back with \<open>[int(y) for y in x.split(',')]\<close>. \<open>str_int\<close> is Python's \<open>str\<close> on an
  integer, \<open>join\<close> and \<open>split_on\<close> are \<open>str.join\<close> and \<open>str.split\<close> with a separator,
  \<open>int_of_str\<close> is \<open>int\<close> on the strings \<open>str\<close> writes (an optional minus sign and decimal
  digits; anything else is a ValueError here). \<open>fold_res\<close> and \<open>map_res\<close> are a loop and
  a list comprehension whose body can raise: the first error ends them.
\<close>

definition decimal_digits :: string where
  "decimal_digits = ''0123456789''"

definition digit_char :: "nat \<Rightarrow> char" where
  "digit_char d = decimal_digits ! d"

definition digit_val :: "char \<Rightarrow> nat option" where
  "digit_val c = map_of (zip decimal_digits [0 ..< 10]) c"

fun str_nat :: "nat \<Rightarrow> string" where
  "str_nat n = (if n < 10 then [digit_char n] else str_nat (n div 10) @ [digit_char (n mod 10)])"

declare str_nat.simps [simp del]

definition str_int :: "int \<Rightarrow> string" where
  "str_int i = (if i < 0 then CHR ''-'' # str_nat (nat (- i)) else str_nat (nat i))"

fun join :: "string \<Rightarrow> string list \<Rightarrow> string" where
  "join sep [] = []"
| "join sep [x] = x"
| "join sep (x # y # ys) = x @ sep @ join sep (y # ys)"

fun split_on :: "char \<Rightarrow> string \<Rightarrow> string list" where
  "split_on sep [] = [[]]"
| "split_on sep (c # cs) =
     (if c = sep then [] # split_on sep cs
      else (case split_on sep cs of [] \<Rightarrow> [[c]] | w # ws \<Rightarrow> (c # w) # ws))"

definition nat_of_digits :: "string \<Rightarrow> nat option" where
  "nat_of_digits s =
     (if s \<noteq> [] \<and> list_all (\<lambda>c. digit_val c \<noteq> None) s
      then Some (fold (\<lambda>c acc. 10 * acc + the (digit_val c)) s 0) else None)"

definition int_of_str :: "string \<Rightarrow> error + int" where
  "int_of_str s =
     (case s of
        [] \<Rightarrow> Inl ValueError
      | c # cs \<Rightarrow>
          if c = CHR ''-''
          then (case nat_of_digits cs of None \<Rightarrow> Inl ValueError | Some n \<Rightarrow> Inr (- int n))
          else (case nat_of_digits s of None \<Rightarrow> Inl ValueError | Some n \<Rightarrow> Inr (int n)))"

fun map_res :: "('a \<Rightarrow> error + 'b) \<Rightarrow> 'a list \<Rightarrow> error + 'b list" where
  "map_res f [] = Inr []"
| "map_res f (x # xs) =
     (case f x of
        Inl e \<Rightarrow> Inl e
      | Inr y \<Rightarrow> (case map_res f xs of Inl e \<Rightarrow> Inl e | Inr ys \<Rightarrow> Inr (y # ys)))"

fun fold_res :: "('a \<Rightarrow> 's \<Rightarrow> error + 's) \<Rightarrow> 'a list \<Rightarrow> 's \<Rightarrow> error + 's" where
  "fold_res f [] s = Inr s"
| "fold_res f (x # xs) s = (case f x s of Inl e \<Rightarrow> Inl e | Inr s' \<Rightarrow> fold_res f xs s')"

definition path_str :: "int list \<Rightarrow> string" where
  "path_str path = join '','' (map str_int path)"

definition parse_path :: "string \<Rightarrow> error + int list" where
  "parse_path x = map_res int_of_str (split_on CHR '','' x)"

subsection \<open>Contig bridge builder\<close>

text \<open>
  \<open>find_contig_bridges\<close>, lines 345 to 362. \<open>scan_to_single_copy\<close> is the inner
  \<open>for ... else\<close>: it returns the path up to and including the first single-copy segment,
  and the empty list when the contig path ends first. \<open>flip_path\<close> is
  \<open>[-x for x in reversed(path)]\<close>.

  \<open>create_spades_contig_bridges\<close>, lines 265 to 343: \<open>add_contig_bridge\<close> is the body of the
  loop over \<open>contig_bridges\<close> (lines 283 to 291), \<open>collect_bridge_paths\<close> the three nested
  loops that fill \<open>bridge_path_set\<close> (kept as the list of its members in the order they are
  added; a member is only added when it is not there yet), \<open>candidate_bridges\<close> the contig
  bridges in the order the loops meet them, \<open>bridge_path_list_of\<close> line 293,
  \<open>index_bridge_path\<close> the body of the loop of lines 299 to 313 over the two dictionaries
  \<open>(bridge_paths_by_start, bridge_paths_by_end)\<close> (association lists: \<open>add_key\<close> is
  \<open>if k not in d: d[k] = []\<close>, \<open>append_value\<close> is \<open>d[k].append(x)\<close>),
  \<open>conflicting_paths_of\<close> lines 314 to 325, \<open>final_bridge_paths\<close> lines 297 to 334.
  Printing is not modelled, so \<open>verbosity\<close> has no effect.
\<close>

fun scan_to_single_copy :: "int list \<Rightarrow> int list \<Rightarrow> int list \<Rightarrow> int list" where
  "scan_to_single_copy single_copy_numbers bridge_path [] = []"
| "scan_to_single_copy single_copy_numbers bridge_path (x # rest) =
     (if x \<in> set single_copy_numbers \<or> - x \<in> set single_copy_numbers
      then bridge_path @ [x]
      else scan_to_single_copy single_copy_numbers (bridge_path @ [x]) rest)"

definition find_contig_bridges :: "int \<Rightarrow> int list \<Rightarrow> int list \<Rightarrow> int list list" where
  "find_contig_bridges segment_num path single_copy_numbers =
     (let indices = filter (\<lambda>i. \<bar>path ! i\<bar> = segment_num) [0 ..< length path]
      in filter (\<lambda>bridge_path. bridge_path \<noteq> [])
           (map (\<lambda>index. scan_to_single_copy single_copy_numbers [path ! index]
                            (drop (index + 1) path)) indices))"

definition flip_path :: "int list \<Rightarrow> int list" where
  "flip_path path = map uminus (rev path)"

definition add_contig_bridge :: "int list \<Rightarrow> string list \<Rightarrow> error + string list" where
  "add_contig_bridge contig_bridge bridge_path_set =
     (let flipped_contig_bridge = flip_path contig_bridge;
          contig_bridge_str = path_str contig_bridge;
          flipped_contig_bridge_str = path_str flipped_contig_bridge
      in if contig_bridge_str \<notin> set bridge_path_set
            \<and> flipped_contig_bridge_str \<notin> set bridge_path_set
         then (case contig_bridge of
                 [] \<Rightarrow> Inl IndexError
               | first # _ \<Rightarrow>
                   if first < 0 \<and> last contig_bridge < 0
                   then Inr (bridge_path_set @ [flipped_contig_bridge_str])
                   else Inr (bridge_path_set @ [contig_bridge_str]))
         else Inr bridge_path_set)"

definition contig_bridges_of :: "int list \<Rightarrow> segment \<Rightarrow> int list \<Rightarrow> int list list" where
  "contig_bridges_of single_copy_numbers segment path =
     find_contig_bridges (number segment) path single_copy_numbers
     @ find_contig_bridges (number segment) (flip_path path) single_copy_numbers"

definition collect_bridge_paths :: "graph \<Rightarrow> segment list \<Rightarrow> error + string list" where
  "collect_bridge_paths g single_copy_segments =
     (let single_copy_numbers = map number single_copy_segments
      in fold_res
           (\<lambda>segment. fold_res
              (\<lambda>path. fold_res add_contig_bridge
                         (contig_bridges_of single_copy_numbers segment path))
              (map snd (paths g)))
           single_copy_segments [])"

definition candidate_bridges :: "graph \<Rightarrow> segment list \<Rightarrow> int list list" where
  "candidate_bridges g single_copy_segments =
     concat (map (\<lambda>segment.
       concat (map (contig_bridges_of (map number single_copy_segments) segment)
                 (map snd (paths g))))
       single_copy_segments)"

definition bridge_path_list_of :: "string list \<Rightarrow> error + int list list" where
  "bridge_path_list_of bridge_path_set =
     bind (map_res parse_path bridge_path_set) (\<lambda>parsed. Inr (sort parsed))"

type_synonym paths_by_key = "(int \<times> int list list) list"

definition add_key :: "'k \<Rightarrow> ('k \<times> 'v list) list \<Rightarrow> ('k \<times> 'v list) list" where
  "add_key k d = (if k \<in> set (map fst d) then d else d @ [(k, [])])"

definition append_value :: "'k \<Rightarrow> 'v \<Rightarrow> ('k \<times> 'v list) list \<Rightarrow> ('k \<times> 'v list) list" where
  "append_value k x d = map (\<lambda>(k', xs). if k' = k then (k', xs @ [x]) else (k', xs)) d"

definition index_bridge_path ::
  "int list \<Rightarrow> paths_by_key \<times> paths_by_key \<Rightarrow> error + paths_by_key \<times> paths_by_key" where
  "index_bridge_path path dicts =
     (case path of
        [] \<Rightarrow> Inl IndexError
      | start # _ \<Rightarrow>
          let end' = last path;
              by_start = add_key (- end') (add_key start (fst dicts));
              by_end = add_key (- start) (add_key end' (snd dicts))
          in Inr (append_value (- end') path (append_value start path by_start),
                  append_value (- start) path (append_value end' path by_end)))"

definition no_dups :: "'a list \<Rightarrow> 'a list" where
  "no_dups xs = fold (\<lambda>x acc. if x \<in> set acc then acc else acc @ [x]) xs []"

definition conflicting_paths_of :: "paths_by_key \<times> paths_by_key \<Rightarrow> int list list" where
  "conflicting_paths_of dicts =
     no_dups
       (concat (map snd (filter (\<lambda>(k, grouped_paths). length grouped_paths > 1) (fst dicts)))
        @ concat (map snd (filter (\<lambda>(k, grouped_paths). length grouped_paths > 1) (snd dicts))))"

definition final_bridge_paths :: "int list list \<Rightarrow> error + int list list" where
  "final_bridge_paths bridge_path_list =
     bind (fold_res index_bridge_path bridge_path_list ([], [])) (\<lambda>dicts.
       let conflicting_paths = conflicting_paths_of dicts
       in Inr (filter (\<lambda>x. x \<notin> set conflicting_paths) bridge_path_list))"

definition create_spades_contig_bridges :: "graph \<Rightarrow> segment list \<Rightarrow> int \<Rightarrow> error + bridge list" where
  "create_spades_contig_bridges g single_copy_segments verbosity =
     bind (collect_bridge_paths g single_copy_segments) (\<lambda>bridge_path_set.
     bind (bridge_path_list_of bridge_path_set) (\<lambda>bridge_path_list.
     bind (final_bridge_paths bridge_path_list) (\<lambda>final_bridge_paths.
     map_res (SpadesContigBridge g) final_bridge_paths)))"

subsection \<open>Loop unrolling builder\<close>

text \<open>
  \<open>create_loop_unrolling_bridges\<close>, lines 364 to 392. \<open>joined_after_paths\<close> is the loop
  over the contig paths; its state is the variable \<open>joined\<close>, which is unbound (\<open>None\<close>)
  until the loop body runs once, so that \<open>if not joined\<close> raises UnboundLocalError when the
  graph has no contig path.
\<close>

fun joined_after_paths :: "int \<Rightarrow> int \<Rightarrow> int \<Rightarrow> int list list \<Rightarrow> bool option \<Rightarrow> bool option" where
  "joined_after_paths start end' middle [] joined = joined"
| "joined_after_paths start end' middle (path # rest) joined =
     (let flipped_path = flip_path path
      in if (start \<in> set path \<and> middle \<in> set path)
            \<or> (end' \<in> set path \<and> middle \<in> set path)
            \<or> (start \<in> set flipped_path \<and> middle \<in> set flipped_path)
            \<or> (end' \<in> set flipped_path \<and> middle \<in> set flipped_path)
         then Some True
         else joined_after_paths start end' middle rest (Some False))"

definition unroll_simple_loop ::
  "graph \<Rightarrow> int \<times> int \<times> int \<times> int \<Rightarrow> bridge list \<times> bool option
     \<Rightarrow> error + bridge list \<times> bool option" where
  "unroll_simple_loop g simple_loop st =
     (let (start, end', middle, repeat) = simple_loop;
          joined = joined_after_paths start end' middle (map snd (paths g)) (snd st)
      in case joined of
           None \<Rightarrow> Inl UnboundLocalError
         | Some False \<Rightarrow> Inr (fst st, joined)
         | Some True \<Rightarrow>
             bind (LoopUnrollingBridge g start end' middle repeat)
               (\<lambda>b. Inr (fst st @ [b], joined)))"

definition create_loop_unrolling_bridges :: "graph \<Rightarrow> segment list \<Rightarrow> int \<Rightarrow> error + bridge list" where
  "create_loop_unrolling_bridges g single_copy_segments verbosity =
     bind (fold_res (unroll_simple_loop g) (find_all_simple_loops g) ([], None))
       (\<lambda>st. Inr (fst st))"

subsection \<open>Long read evidence\<close>

text \<open>
  The read and alignment classes live in other modules; the attributes and the
  argument-free methods that bridge.py uses are fields here. \<open>reverse_complement\<close> (module
  misc) is a parameter of the functions that call it.

  \<open>get_single_copy_alignments\<close>, lines 588 to 628: \<open>group_single_copy_alignments\<close> is the
  first loop (the dictionary \<open>sc_alignments\<close> as an association list in the order its keys
  are added), \<open>select_alignments\<close> the body of the second loop for one group. \<open>sorted\<close>
  with \<open>reverse=True\<close> is stable, as \<open>sort_key\<close> on the negated key is.

  \<open>create_long_read_bridges\<close>, lines 394 to 519: \<open>allowed_overlap_of\<close> is line 419,
  \<open>round(int(1.1 * graph.overlap))\<close>, with 1.1 read as 11/10; \<open>add_spanning_pair\<close> is the
  body of the loop over neighbouring pairs (lines 449 to 474), \<open>add_available_alignment\<close>
  the body of the loop over \<open>sorted_alignments\<close> (lines 444 to 474),
  \<open>add_overlapping_seqs\<close> lines 479 to 497, where \<open>alignment\<close> is the loop variable
  left by the loop over \<open>sorted_alignments\<close>, \<open>process_read\<close> the body of the loop over the
  read names, and \<open>collect_long_read_evidence\<close> that loop: it returns the two dictionaries
  \<open>(spanning_read_seqs, overlapping_read_seqs)\<close>. \<open>create_long_read_bridges\<close> runs it
  and returns the empty list of line 519. \<open>py_slice\<close> is a slice \<open>xs[i:j]\<close>. The list of
  read names is \<open>read_name_list\<close> (a long read bridge has a field \<open>read_names\<close>).
\<close>

record alignment =
  ref :: segment
  raw_score :: int
  scaled_score :: real
  ref_start_pos :: int
  ref_end_gap :: int
  read_start_positive_strand :: int
  read_end_positive_strand :: int
  get_aligned_ref_length :: int
  get_signed_ref_num :: int
  get_start_overlapping_read_seq :: string
  get_end_overlapping_read_seq :: string

record read =
  name :: string
  sequence :: string
  alignments :: "alignment list"

definition group_single_copy_alignments ::
  "read \<Rightarrow> int set \<Rightarrow> real \<Rightarrow> (int \<times> alignment list) list" where
  "group_single_copy_alignments rd single_copy_num_set min_scaled_score =
     fold (\<lambda>alignment sc_alignments.
             let ref_num = number (ref alignment)
             in if ref_num \<notin> single_copy_num_set then sc_alignments
                else if scaled_score alignment < min_scaled_score then sc_alignments
                else append_value ref_num alignment (add_key ref_num sc_alignments))
          (alignments rd) []"

definition select_alignments :: "int \<Rightarrow> alignment list \<Rightarrow> error + alignment list" where
  "select_alignments allowed_overlap grouped =
     (case sort_key (\<lambda>x. - scaled_score x) grouped of
        [] \<Rightarrow> Inl IndexError
      | best_alignment # others \<Rightarrow>
          (case others of
             [] \<Rightarrow> Inr [best_alignment]
           | second_best_alignment # _ \<Rightarrow>
               let combined_len = get_aligned_ref_length best_alignment
                                    + get_aligned_ref_length second_best_alignment
               in if combined_len \<le> get_length (ref best_alignment) + allowed_overlap
                     \<and> ((ref_start_pos best_alignment > 0 \<and> ref_end_gap second_best_alignment > 0)
                         \<or> (ref_end_gap best_alignment > 0 \<and> ref_start_pos second_best_alignment > 0))
                  then Inr [best_alignment, second_best_alignment]
                  else Inr [best_alignment]))"

definition get_single_copy_alignments ::
  "read \<Rightarrow> int set \<Rightarrow> int \<Rightarrow> real \<Rightarrow> error + alignment list" where
  "get_single_copy_alignments rd single_copy_num_set allowed_overlap min_scaled_score =
     bind (map_res (select_alignments allowed_overlap)
             (map snd (group_single_copy_alignments rd single_copy_num_set min_scaled_score)))
       (\<lambda>selected. Inr (concat selected))"

definition allowed_overlap_of :: "graph \<Rightarrow> int" where
  "allowed_overlap_of g = py_round (of_int (py_int (11 / 10 * of_int (overlap g))))"

datatype bridge_seq = Bases string | Gap int

type_synonym spanning_read_seqs = "int \<times> int \<rightharpoonup> (bridge_seq \<times> alignment \<times> alignment) list"
type_synonym overlapping_read_seqs = "int \<rightharpoonup> string list"

definition py_slice :: "'a list \<Rightarrow> int \<Rightarrow> int \<Rightarrow> 'a list" where
  "py_slice xs i j =
     (let n = int (length xs);
          lo = (if i < 0 then max (i + n) 0 else min i n);
          hi = (if j < 0 then max (j + n) 0 else min j n)
      in take (nat (hi - lo)) (drop (nat lo) xs))"

definition dict_append :: "'k \<Rightarrow> 'v \<Rightarrow> ('k \<rightharpoonup> 'v list) \<Rightarrow> ('k \<rightharpoonup> 'v list)" where
  "dict_append k x d = d(k \<mapsto> (case d k of None \<Rightarrow> [] | Some xs \<Rightarrow> xs) @ [x])"

definition add_spanning_pair ::
  "(string \<Rightarrow> string) \<Rightarrow> read \<Rightarrow> alignment \<Rightarrow> alignment
     \<Rightarrow> (int \<times> int) set \<times> spanning_read_seqs \<Rightarrow> (int \<times> int) set \<times> spanning_read_seqs" where
  "add_spanning_pair reverse_complement rd alignment_1 alignment_2 st =
     (let (seg_nums, flipped) =
            flip_segment_order (get_signed_ref_num alignment_1) (get_signed_ref_num alignment_2);
          (already_added, spanning) = st
      in if seg_nums \<in> already_added then st
         else
           let bridge_start = read_end_positive_strand alignment_1;
               bridge_end = read_start_positive_strand alignment_2;
               bridge_seq =
                 (if bridge_end > bridge_start
                  then Bases (let s = py_slice (sequence rd) bridge_start bridge_end
                              in if flipped then reverse_complement s else s)
                  else Gap (bridge_end - bridge_start))
           in (insert seg_nums already_added,
               dict_append seg_nums (bridge_seq, alignment_1, alignment_2) spanning))"

definition add_available_alignment ::
  "(string \<Rightarrow> string) \<Rightarrow> read \<Rightarrow> alignment
     \<Rightarrow> alignment list \<times> (int \<times> int) set \<times> spanning_read_seqs
     \<Rightarrow> alignment list \<times> (int \<times> int) set \<times> spanning_read_seqs" where
  "add_available_alignment reverse_complement rd alignment st =
     (let available_alignments =
            sort_key read_start_positive_strand (fst st @ [alignment])
      in (available_alignments,
          fold (\<lambda>i. add_spanning_pair reverse_complement rd
                       (available_alignments ! i) (available_alignments ! (i + 1)))
            [0 ..< length available_alignments - 1] (snd st)))"

definition add_overlapping_seqs ::
  "(string \<Rightarrow> string) \<Rightarrow> alignment list \<Rightarrow> alignment \<Rightarrow> overlapping_read_seqs
     \<Rightarrow> error + overlapping_read_seqs" where
  "add_overlapping_seqs reverse_complement available_alignments alignment overlapping =
     (case available_alignments of
        [] \<Rightarrow> Inl IndexError
      | first_alignment # _ \<Rightarrow>
          let start_overlap = get_start_overlapping_read_seq first_alignment;
              overlapping =
                (if start_overlap \<noteq> []
                 then dict_append (- get_signed_ref_num alignment)
                        (reverse_complement start_overlap) overlapping
                 else overlapping);
              last_alignment = last available_alignments;
              end_overlap = get_end_overlapping_read_seq last_alignment
          in Inr (if end_overlap \<noteq> []
                  then dict_append (get_signed_ref_num alignment) end_overlap overlapping
                  else overlapping))"

definition process_read ::
  "(string \<Rightarrow> string) \<Rightarrow> int set \<Rightarrow> int \<Rightarrow> real \<Rightarrow> read
     \<Rightarrow> spanning_read_seqs \<times> overlapping_read_seqs
     \<Rightarrow> error + spanning_read_seqs \<times> overlapping_read_seqs" where
  "process_read reverse_complement single_copy_seg_num_set allowed_overlap min_scaled_score rd st =
     bind (get_single_copy_alignments rd single_copy_seg_num_set allowed_overlap min_scaled_score)
       (\<lambda>alignments.
          if alignments = [] then Inr st
          else
            let sorted_alignments = sort_key (\<lambda>x. - raw_score x) alignments;
                (available_alignments, already_added, spanning) =
                  fold (add_available_alignment reverse_complement rd) sorted_alignments
                    ([], {}, fst st);
                alignment = last sorted_alignments
            in bind (add_overlapping_seqs reverse_complement available_alignments alignment (snd st))
                 (\<lambda>overlapping. Inr (spanning, overlapping)))"

definition collect_long_read_evidence ::
  "(string \<Rightarrow> string) \<Rightarrow> graph \<Rightarrow> (string \<rightharpoonup> read) \<Rightarrow> string list \<Rightarrow> segment list \<Rightarrow> real
     \<Rightarrow> error + spanning_read_seqs \<times> overlapping_read_seqs" where
  "collect_long_read_evidence reverse_complement g read_dict read_name_list single_copy_segments
       min_scaled_score =
     (let single_copy_seg_num_set = set (map number single_copy_segments);
          allowed_overlap = allowed_overlap_of g
      in fold_res
           (\<lambda>read_name st.
              case read_dict read_name of
                None \<Rightarrow> Inl KeyError
              | Some rd \<Rightarrow> process_read reverse_complement single_copy_seg_num_set
                             allowed_overlap min_scaled_score rd st)
           read_name_list (Map.empty, Map.empty))"

definition create_long_read_bridges ::
  "(string \<Rightarrow> string) \<Rightarrow> graph \<Rightarrow> (string \<rightharpoonup> read) \<Rightarrow> string list \<Rightarrow> segment list \<Rightarrow> int
     \<Rightarrow> bridge list \<Rightarrow> real \<Rightarrow> error + long_read_bridge list" where
  "create_long_read_bridges reverse_complement g read_dict read_name_list single_copy_segments
       verbosity existing_bridges min_scaled_score =
     bind (collect_long_read_evidence reverse_complement g read_dict read_name_list
             single_copy_segments min_scaled_score)
       (\<lambda>evidence. Inr [])"

subsection \<open>Example graphs\<close>

definition example_segment :: "int \<Rightarrow> real \<Rightarrow> int \<Rightarrow> segment" where
  "example_segment n d len =
     \<lparr>number = n, depth = d, get_length = len, get_length_no_overlap = (\<lambda>ov. len - ov)\<rparr>"

text \<open>
  A contig path 1, 4, 5, 4, 2 between the single-copy segments 1 and 2 (depth 10): the
  repeat segment 4 is passed twice and has depth 20, segment 5 is passed once and has
  depth 10. Segments 4 and 5 connect to nothing outside the path.
\<close>

definition twice_graph :: graph where
  "twice_graph =
     \<lparr>segments = [1 \<mapsto> example_segment 1 10 100, 2 \<mapsto> example_segment 2 10 100,
                  4 \<mapsto> example_segment 4 20 50, 5 \<mapsto> example_segment 5 10 50],
      overlap = 0,
      paths = [(''NODE_1'', [1, 4, 5, 4, 2])],
      get_path_sequence = (\<lambda>path. []),
      get_connected_segments = (\<lambda>n. if \<bar>n\<bar> = 4 then [1, 2, 5] else [4]),
      find_all_simple_loops = [(1, 2, 5, 4)]\<rparr>"

text \<open>
  A simple loop with end points 1 and 2 (depth 10), middle 3 and repeat 4, both of depth
  1: the repeat segment is shallower than the bridge, and the mean loop count is
  \<open>(0.1 + (-0.9)) / 2 = -0.4\<close>.
\<close>

definition shallow_loop_graph :: graph where
  "shallow_loop_graph =
     \<lparr>segments = [1 \<mapsto> example_segment 1 10 100, 2 \<mapsto> example_segment 2 10 100,
                  3 \<mapsto> example_segment 3 1 50, 4 \<mapsto> example_segment 4 1 50],
      overlap = 0,
      paths = [(''NODE_1'', [1, 4, 3, 4, 2])],
      get_path_sequence = (\<lambda>path. []),
      get_connected_segments = (\<lambda>n. if \<bar>n\<bar> = 4 then [1, 2, 3] else [4]),
      find_all_simple_loops = [(1, 2, 3, 4)]\<rparr>"

text \<open>
  A simple loop whose middle segment 3 has depth 20 and whose repeat segment 4 has depth
  30, between end points of depth 10: both estimates of the loop count are 2.
\<close>

definition double_loop_graph :: graph where
  "double_loop_graph =
     \<lparr>segments = [1 \<mapsto> example_segment 1 10 100, 2 \<mapsto> example_segment 2 10 100,
                  3 \<mapsto> example_segment 3 20 50, 4 \<mapsto> example_segment 4 30 50],
      overlap = 0,
      paths = [(''NODE_1'', [1, 4, 3, 4, 2])],
      get_path_sequence = (\<lambda>path. []),
      get_connected_segments = (\<lambda>n. if \<bar>n\<bar> = 4 then [1, 2, 3] else [4]),
      find_all_simple_loops = [(1, 2, 3, 4)]\<rparr>"

text \<open>
  A contig path 3, 5, -3 that leaves the single-copy segment 3 and comes back to its
  reverse complement, and a contig path 1, 4, 2 between the single-copy segments 1 and 2.
\<close>

definition hairpin_graph :: graph where
  "hairpin_graph =
     \<lparr>segments = [3 \<mapsto> example_segment 3 10 100, 5 \<mapsto> example_segment 5 10 50],
      overlap = 0,
      paths = [(''NODE_1'', [3, 5, - 3])],
      get_path_sequence = (\<lambda>path. []),
      get_connected_segments = (\<lambda>n. if \<bar>n\<bar> = 5 then [3] else [5]),
      find_all_simple_loops = []\<rparr>"

definition chain_graph :: graph where
  "chain_graph =
     \<lparr>segments = [1 \<mapsto> example_segment 1 10 100, 2 \<mapsto> example_segment 2 10 100,
                  4 \<mapsto> example_segment 4 10 50],
      overlap = 0,
      paths = [(''NODE_1'', [1, 4, 2])],
      get_path_sequence = (\<lambda>path. []),
      get_connected_segments = (\<lambda>n. if \<bar>n\<bar> = 4 then [1, 2] else [4]),
      find_all_simple_loops = []\<rparr>"

text \<open>
  A read with an alignment to segment 5 (raw score 100, read positions 4 to 10, the four
  read bases before it overlapping the start) followed by an alignment to segment 7 (raw
  score 50, read positions 12 to 18, the two read bases after it overlapping the end). A
  graph of overlap 5 and a read with two alignments to its segment 1 of length 1000: the
  best covers 600 bases up to the end of the segment, the second 406 bases from its start.
  In \<open>circular_read\<close> the second alignment covers 405 bases. \<open>flat_chain_graph\<close> is
  \<open>chain_graph\<close> with end segments of length 0.
\<close>

definition example_reverse_complement :: "string \<Rightarrow> string" where
  "example_reverse_complement s =
     rev (map (\<lambda>c. case map_of (zip ''ACGT'' ''TGCA'') c of None \<Rightarrow> c | Some b \<Rightarrow> b) s)"

definition example_alignment ::
  "segment \<Rightarrow> int \<Rightarrow> int \<Rightarrow> real \<Rightarrow> int \<times> int \<Rightarrow> int \<times> int \<Rightarrow> string \<times> string \<Rightarrow> alignment" where
  "example_alignment seg signed_num raw scaled read_span ref_gaps overlaps =
     \<lparr>ref = seg, raw_score = raw, scaled_score = scaled,
      ref_start_pos = fst ref_gaps, ref_end_gap = snd ref_gaps,
      read_start_positive_strand = fst read_span, read_end_positive_strand = snd read_span,
      get_aligned_ref_length = get_length seg - fst ref_gaps - snd ref_gaps,
      get_signed_ref_num = signed_num,
      get_start_overlapping_read_seq = fst overlaps,
      get_end_overlapping_read_seq = snd overlaps\<rparr>"

definition two_segment_read :: read where
  "two_segment_read =
     \<lparr>name = ''read_1'', sequence = ''AACGTTTTTTGGCCCCCCGT'',
      alignments =
        [example_alignment (example_segment 5 10 6) 5 100 (9 / 10) (4, 10) (0, 0) (''AACG'', ''''),
         example_alignment (example_segment 7 10 6) 7 50 (8 / 10) (12, 18) (0, 0) ('''', ''GT'')]\<rparr>"

definition overlap_5_graph :: graph where
  "overlap_5_graph =
     \<lparr>segments = [1 \<mapsto> example_segment 1 10 1000],
      overlap = 5,
      paths = [],
      get_path_sequence = (\<lambda>path. []),
      get_connected_segments = (\<lambda>n. []),
      find_all_simple_loops = []\<rparr>"

definition wrap_around_read :: read where
  "wrap_around_read =
     \<lparr>name = ''read_2'', sequence = [],
      alignments =
        [example_alignment (example_segment 1 10 1000) 1 600 (9 / 10) (0, 600) (400, 0) ('''', ''''),
         example_alignment (example_segment 1 10 1000) 1 400 (8 / 10) (600, 1006) (0, 594) ('''', '''')]\<rparr>"

definition circular_read :: read where
  "circular_read =
     \<lparr>name = ''read_3'', sequence = [],
      alignments =
        [example_alignment (example_segment 1 10 1000) 1 400 (8 / 10) (600, 1005) (0, 595) ('''', ''''),
         example_alignment (example_segment 1 10 1000) 1 600 (9 / 10) (0, 600) (400, 0) ('''', '''')]\<rparr>"

definition flat_chain_graph :: graph where
  "flat_chain_graph =
     \<lparr>segments = [1 \<mapsto> example_segment 1 10 0, 2 \<mapsto> example_segment 2 10 0,
                  4 \<mapsto> example_segment 4 10 50],
      overlap = 0,
      paths = [(''NODE_1'', [1, 4, 2])],
      get_path_sequence = (\<lambda>path. []),
      get_connected_segments = (\<lambda>n. if \<bar>n\<bar> = 4 then [1, 2] else [4]),
      find_all_simple_loops = []\<rparr>"

subsection \<open>Invariants used in the proofs\<close>

text \<open>
  \<open>bucket_entries ka kb l k\<close> is what a dictionary holds under the key \<open>k\<close> once every
  path \<open>p\<close> of \<open>l\<close> has been appended under its keys \<open>ka p\<close> and then \<open>kb p\<close>;
  \<open>index_step\<close> is one such round for one dictionary; \<open>dict_inv\<close> says that a dictionary
  holds exactly these entries and has a key for every path of \<open>l\<close>. \<open>dedup_inv\<close> is the
  invariant of \<open>bridge_path_set\<close>.
\<close>

definition bucket_entries :: "('a \<Rightarrow> 'k) \<Rightarrow> ('a \<Rightarrow> 'k) \<Rightarrow> 'a list \<Rightarrow> 'k \<Rightarrow> 'a list" where
  "bucket_entries ka kb l k =
     concat (map (\<lambda>p. (if ka p = k then [p] else []) @ (if kb p = k then [p] else [])) l)"

definition index_step ::
  "('a \<Rightarrow> 'k) \<Rightarrow> ('a \<Rightarrow> 'k) \<Rightarrow> 'a \<Rightarrow> ('k \<times> 'a list) list \<Rightarrow> ('k \<times> 'a list) list" where
  "index_step ka kb p d =
     append_value (kb p) p (append_value (ka p) p (add_key (kb p) (add_key (ka p) d)))"

definition dict_inv ::
  "('a \<Rightarrow> 'k) \<Rightarrow> ('a \<Rightarrow> 'k) \<Rightarrow> ('k \<times> 'a list) list \<Rightarrow> 'a list \<Rightarrow> bool" where
  "dict_inv ka kb d l \<longleftrightarrow>
     list_all (\<lambda>(k, v). v = bucket_entries ka kb l k) d
     \<and> list_all (\<lambda>q. ka q \<in> fst ` set d \<and> kb q \<in> fst ` set d) l"

definition dedup_inv :: "string list \<Rightarrow> bool" where
  "dedup_inv S \<longleftrightarrow>
     distinct S
     \<and> (\<forall>s \<in> set S. \<exists>p. p \<noteq> [] \<and> s = path_str p \<and> \<not> (hd p < 0 \<and> last p < 0))
     \<and> (\<forall>p. p \<noteq> [] \<longrightarrow> path_str p \<in> set S \<longrightarrow> path_str (flip_path p) \<in> set S
            \<longrightarrow> flip_path p = p)"

section \<open>Properties\<close>

subsection \<open>Evaluation and the error monad\<close>

lemmas eval_defs = SpadesContigBridge_def bind_def lookup_segment_def twice_graph_def example_segment_def
  get_num_agreement_def get_mean_depth_def weighted_average_def path_is_self_contained_def Let_def
  shallow_loop_graph_def LoopUnrollingBridge_def loop_depth_estimates_def loop_count_of_def closeness_to_whole_num_def unrolled_path_def
  scale_by_depth_consistency_def


subsection \<open>Scoring primitives\<close>

lemma ratio_in_unit_interval:
  fixes n1 n2 :: real
  assumes "\<not> n1 * n2 < 0" and "\<not> (n1 < 0 \<and> n2 < 0)" and "max n1 n2 \<noteq> 0"
  shows "0 \<le> min n1 n2 / max n1 n2 \<and> min n1 n2 / max n1 n2 \<le> 1"
proof -
  from assms have "0 < max n1 n2 \<and> 0 \<le> min n1 n2"
    by (auto simp: max_def min_def mult_less_0_iff not_less split: if_splits)
  moreover have "min n1 n2 \<le> max n1 n2" by simp
  ultimately show ?thesis by simp
qed

lemma get_num_agreement_range:
  assumes "get_num_agreement a b = Inr v"
  shows "0 \<le> v \<and> v \<le> 1"
proof (cases "a = 0 \<and> b = 0")
  case True
  with assms show ?thesis by (simp add: get_num_agreement_def)
next
  case nz: False
  show ?thesis
  proof (cases "a < 0 \<and> b < 0")
    case True
    then have "0 < a * b" by (simp add: mult_neg_neg)
    then have "\<not> a * b < 0" by simp
    with assms nz True have "v = min (- a) (- b) / max (- a) (- b)"
      by (simp add: get_num_agreement_def Let_def split: if_splits)
    moreover from True have "0 < max (- a) (- b) \<and> 0 < min (- a) (- b)" by auto
    moreover have "min (- a) (- b) \<le> max (- a) (- b)" by simp
    ultimately show ?thesis by simp
  next
    case False
    with assms nz have r: "(if a * b < 0 then Inr 0
           else if max a b = 0 then Inl ZeroDivisionError
           else Inr (min a b / max a b)) = (Inr v :: error + real)"
      by (simp add: get_num_agreement_def Let_def)
    show ?thesis
    proof (cases "a * b < 0")
      case True
      with r show ?thesis by simp
    next
      case nonneg: False
      with r have m: "max a b \<noteq> 0" and v: "v = min a b / max a b"
        by (auto split: if_splits)
      from ratio_in_unit_interval [OF nonneg False m] show ?thesis by (simp add: v)
    qed
  qed
qed

lemma get_num_agreement_pos:
  assumes "0 < a" and "0 < b"
  shows "\<exists>v. get_num_agreement a b = Inr v \<and> 0 < v \<and> v \<le> 1"
proof -
  from assms have "0 < a * b" by simp
  then have "\<not> a * b < 0" by simp
  with assms have "get_num_agreement a b = Inr (min a b / max a b)"
    by (simp add: get_num_agreement_def Let_def max_def)
  moreover from assms have "0 < min a b / max a b" by (simp add: min_def max_def)
  moreover from assms have "min a b / max a b \<le> 1" by (simp add: min_def max_def)
  ultimately show ?thesis by simp
qed

text \<open>The function raises exactly when one number is negative and the other is zero.\<close>

lemma get_num_agreement_raises_iff:
  "(\<exists>e. get_num_agreement a b = Inl e) \<longleftrightarrow> (a < 0 \<and> b = 0) \<or> (a = 0 \<and> b < 0)"
proof (cases "a < 0 \<and> b < 0")
  case True
  then have "0 < a * b" by (simp add: mult_neg_neg)
  then have "\<not> a * b < 0" by simp
  with True show ?thesis by (auto simp: get_num_agreement_def Let_def max_def)
next
  case False
  then show ?thesis
    by (auto simp: get_num_agreement_def Let_def max_def mult_less_0_iff not_less)
qed

lemma get_num_agreement_pos_right:
  assumes "0 < b"
  shows "\<exists>v. get_num_agreement a b = Inr v"
proof (cases "get_num_agreement a b")
  case (Inl e)
  then have "\<exists>e. get_num_agreement a b = Inl e" by blast
  with assms show ?thesis by (simp add: get_num_agreement_raises_iff)
next
  case (Inr v)
  then show ?thesis by blast
qed

text \<open>
  Claim C4. \<open>get_num_agreement\<close> is claimed to be total with values in [0, 1], returning
  0.0 when one input is negative and the other is zero. At \<open>(-1.0, 0.0)\<close> the code
  raises ZeroDivisionError instead: the inputs are not both zero, not both negative, their
  product is not below zero, and \<open>max(-1.0, 0.0)\<close> is the divisor.
\<close>

theorem get_num_agreement_negative_zero_raises:
  "get_num_agreement (- 1) 0 = Inl ZeroDivisionError"
  by (simp add: get_num_agreement_def)

subsection \<open>Segment-pair canonicalisation\<close>

text \<open>
  Claim C8. For nonzero signed segment numbers, \<open>flip_segment_order\<close> does not flip when
  both are positive, flips when both are negative, and with exactly one negative number
  flips exactly when its magnitude exceeds the other's; a flip returns the negated pair
  in reverse order; \<open>flip_segment_order(5, -6)\<close> is \<open>((6, -5), True)\<close>; and a pair and its
  reverse complement \<open>(-b, -a)\<close> get the same canonical pair.
\<close>

theorem flip_segment_order_canonical:
  assumes "a \<noteq> 0" and "b \<noteq> 0"
  shows "snd (flip_segment_order a b) =
           (if 0 < a \<and> 0 < b then False
            else if a < 0 \<and> b < 0 then True
            else if a < 0 then \<bar>b\<bar> < \<bar>a\<bar> else \<bar>a\<bar> < \<bar>b\<bar>)
       \<and> fst (flip_segment_order a b) =
           (if snd (flip_segment_order a b) then (- b, - a) else (a, b))
       \<and> flip_segment_order 5 (- 6) = ((6, - 5), True)
       \<and> fst (flip_segment_order a b) = fst (flip_segment_order (- b) (- a))"
  using assms by (auto simp: flip_segment_order_def Let_def)

theorem flip_segment_order_canonical_witness:
  "snd (flip_segment_order 3 (- 7)) = True
   \<and> fst (flip_segment_order 3 (- 7)) = (7, - 3)
   \<and> fst (flip_segment_order 3 (- 7)) = fst (flip_segment_order 7 (- 3))"
  using flip_segment_order_canonical [of 3 "- 7"] by (simp add: flip_segment_order_def)

subsection \<open>Contig and loop unrolling bridges\<close>

lemma bind_Inr_iff: "bind m f = Inr y \<longleftrightarrow> (\<exists>x. m = Inr x \<and> f x = Inr y)"
  by (cases m) (simp_all add: bind_def)

lemma scale_by_path_depths_bounds:
  "scale_by_path_depths g d pos xs q = Inr q' \<Longrightarrow> 0 \<le> q \<Longrightarrow> 0 \<le> q' \<and> q' \<le> q"
proof (induction xs arbitrary: q)
  case Nil
  then show ?case by simp
next
  case (Cons x xs)
  show ?case
  proof (cases "lookup_segment g x")
    case (Inl e)
    with Cons.prems show ?thesis by simp
  next
    case seg: (Inr seg)
    show ?thesis
    proof (cases "get_num_agreement (depth seg) (of_nat (count_list pos x) * d)")
      case (Inl e)
      with Cons.prems seg show ?thesis by (simp add: Let_def)
    next
      case a: (Inr a)
      with Cons.prems seg have rest: "scale_by_path_depths g d pos xs (q * a) = Inr q'"
        by (simp add: Let_def)
      from get_num_agreement_range [OF a] have a01: "0 \<le> a" "a \<le> 1" by simp_all
      with Cons.prems(2) have "0 \<le> q * a" by simp
      from Cons.IH [OF rest this] have "0 \<le> q'" "q' \<le> q * a" by simp_all
      moreover from a01 Cons.prems(2) have "q * a \<le> q" by (simp add: mult_left_le)
      ultimately show ?thesis by simp
    qed
  qed
qed

lemma scale_by_depth_consistency_bounds:
  assumes "scale_by_depth_consistency g path start end' d q = Inr q'" and "0 \<le> q"
  shows "0 \<le> q' \<and> q' \<le> q"
proof (cases "path_is_self_contained path start end' g")
  case True
  with assms(1) have "scale_by_path_depths g d (remdups (map abs path)) (remdups (map abs path)) q = Inr q'"
    by (simp add: scale_by_depth_consistency_def Let_def)
  from scale_by_path_depths_bounds [OF this assms(2)] show ?thesis .
next
  case False
  with assms show ?thesis by (simp add: scale_by_depth_consistency_def)
qed

lemma SpadesContigBridge_quality:
  assumes "SpadesContigBridge g p = Inr b"
  shows "0 \<le> quality b \<and> quality b \<le> 20"
proof -
  from assms obtain start popped where p: "p = start # popped" and ne: "popped \<noteq> []"
    by (auto simp: SpadesContigBridge_def split: list.splits if_splits)
  from assms p ne have "\<exists>x y a d.
      get_num_agreement x y = Inr a
    \<and> scale_by_depth_consistency g (butlast popped) start (last popped) d (20 * (a * a))
         = Inr (quality b)"
    by (fastforce simp: SpadesContigBridge_def Let_def bind_Inr_iff)
  then obtain x y a d where
    a: "get_num_agreement x y = Inr a"
    and q: "scale_by_depth_consistency g (butlast popped) start (last popped) d (20 * (a * a))
         = Inr (quality b)"
    by blast
  from get_num_agreement_range [OF a] have "0 \<le> a" "a \<le> 1" by simp_all
  then have "0 \<le> a * a" "a * a \<le> 1" by (simp_all add: mult_le_one)
  then have q0: "0 \<le> 20 * (a * a)" "20 * (a * a) \<le> 20" by simp_all
  from scale_by_depth_consistency_bounds [OF q q0(1)] q0(2) show ?thesis by simp
qed

lemma py_round_eq_round: "0 \<le> x \<Longrightarrow> py_round x = round x"
  by (simp add: py_round_def round_def)

lemma loop_count_of_ge_1: "1 \<le> loop_count_of e"
proof (cases "e < 1")
  case True
  then show ?thesis by (simp add: loop_count_of_def)
next
  case False
  then have "1 \<le> \<lfloor>e + 1 / 2\<rfloor>" by (simp add: le_floor_iff)
  with False show ?thesis by (simp add: loop_count_of_def py_round_def)
qed

lemma closeness_le_1: "closeness_to_whole_num e \<le> 1"
proof (cases "e < 1")
  case True
  then show ?thesis by (simp add: closeness_to_whole_num_def)
next
  case False
  have "0 \<le> e - of_int \<lfloor>e\<rfloor>" by simp
  moreover have "e - of_int \<lfloor>e\<rfloor> < 1" by linarith
  ultimately have "0 \<le> min (e - of_int \<lfloor>e\<rfloor>) (1 - (e - of_int \<lfloor>e\<rfloor>))" by simp
  with False show ?thesis by (simp add: closeness_to_whole_num_def Let_def)
qed

lemma closeness_ge_0: "0 \<le> e \<Longrightarrow> 0 \<le> closeness_to_whole_num e"
proof (cases "e < 1")
  case True
  assume "0 \<le> e"
  with True show ?thesis by (simp add: closeness_to_whole_num_def)
next
  case False
  have "min (e - of_int \<lfloor>e\<rfloor>) (1 - (e - of_int \<lfloor>e\<rfloor>)) \<le> 1 / 2" by (simp add: min_def)
  with False show ?thesis by (simp add: closeness_to_whole_num_def Let_def)
qed

lemma unrolled_path_fold:
  "fold (\<lambda>_ path. path @ [middle, repeat]) xs acc
     = acc @ concat (replicate (length xs) [middle, repeat])"
  by (induction xs arbitrary: acc) (simp_all add: replicate_append_same [symmetric] del: replicate_Suc, simp_all)


lemma unrolled_path_eq:
  "unrolled_path middle repeat n = repeat # concat (replicate (nat n) [middle, repeat])"
  by (simp add: unrolled_path_def unrolled_path_fold)

lemma LoopUnrollingBridge_from_estimates:
  assumes "loop_depth_estimates g start end' middle repeat = Inr (da, d, e)"
  shows "LoopUnrollingBridge g start end' middle repeat =
           Inr \<lparr>start_segment = Some start, end_segment = Some end',
                graph_path = unrolled_path middle repeat (loop_count_of e),
                bridge_sequence = get_path_sequence g (unrolled_path middle repeat (loop_count_of e)),
                bridge_depth = d,
                quality = 10 * (da * da) * closeness_to_whole_num e
                            * sqrt (1 / of_int (loop_count_of e))\<rparr>"
proof -
  from loop_count_of_ge_1 [of e] have "loop_count_of e \<noteq> 0" by simp
  with assms show ?thesis by (simp add: LoopUnrollingBridge_def bind_def Let_def)
qed

lemma LoopUnrollingBridge_estimates:
  assumes "LoopUnrollingBridge g start end' middle repeat = Inr b"
  shows "\<exists>da d e. loop_depth_estimates g start end' middle repeat = Inr (da, d, e)"
  using assms by (cases "loop_depth_estimates g start end' middle repeat")
    (auto simp: LoopUnrollingBridge_def bind_def)

lemma loop_depth_estimates_agreement:
  assumes "loop_depth_estimates g start end' middle repeat = Inr (da, d, e)"
  shows "0 \<le> da \<and> da \<le> 1"
proof -
  from assms have "\<exists>x y. get_num_agreement x y = Inr da"
    by (fastforce simp: loop_depth_estimates_def bind_Inr_iff Let_def split: if_splits)
  then show ?thesis by (auto dest: get_num_agreement_range)
qed

lemma loop_count_penalty_range:
  "0 < sqrt (1 / of_int (loop_count_of e)) \<and> sqrt (1 / of_int (loop_count_of e)) \<le> 1"
proof -
  from loop_count_of_ge_1 [of e] have "(1::real) \<le> of_int (loop_count_of e)" by simp
  then have "0 < 1 / (of_int (loop_count_of e) :: real)" "1 / (of_int (loop_count_of e) :: real) \<le> 1"
    by simp_all
  then show ?thesis by (simp add: real_sqrt_le_1_iff del: of_int_le_iff)
qed

lemma loop_quality_le_10:
  assumes "0 \<le> da" and "da \<le> 1"
  shows "10 * (da * da) * closeness_to_whole_num e * sqrt (1 / of_int (loop_count_of e)) \<le> 10"
proof -
  let ?c = "closeness_to_whole_num e" and ?p = "sqrt (1 / real_of_int (loop_count_of e))"
  from assms have a: "0 \<le> da * da" "da * da \<le> 1" by (simp_all add: mult_le_one)
  from loop_count_penalty_range [of e] have p: "0 < ?p" "?p \<le> 1" by simp_all
  have c: "?c \<le> 1" by (rule closeness_le_1)
  show ?thesis
  proof (cases "0 \<le> ?c")
    case True
    with c p have "?c * ?p \<le> 1" by (simp add: mult_le_one)
    moreover from True p have "0 \<le> ?c * ?p" by simp
    ultimately have "(da * da) * (?c * ?p) \<le> 1" using a by (simp add: mult_le_one)
    then show ?thesis by (simp add: mult.assoc)
  next
    case False
    with p have "?c * ?p \<le> 0" by (simp add: mult_le_0_iff)
    with a have "(da * da) * (?c * ?p) \<le> 0" by (simp add: mult_le_0_iff)
    then show ?thesis by (simp add: mult.assoc)
  qed
qed

lemma loop_quality_ge_0:
  assumes "0 \<le> e"
  shows "0 \<le> 10 * (da * da) * closeness_to_whole_num e * sqrt (1 / of_int (loop_count_of e))"
proof -
  from closeness_ge_0 [OF assms] have "0 \<le> closeness_to_whole_num e" .
  moreover from loop_count_penalty_range [of e]
  have "0 \<le> sqrt (1 / real_of_int (loop_count_of e))" by simp
  moreover have "0 \<le> 10 * (da * da)" by simp
  ultimately show ?thesis by simp
qed

lemma loop_quality_negative:
  assumes "e < 0" and "da \<noteq> 0"
  shows "10 * (da * da) * closeness_to_whole_num e * sqrt (1 / of_int (loop_count_of e)) < 0"
proof -
  from assms(1) have "closeness_to_whole_num e = e" "loop_count_of e = 1"
    by (simp_all add: closeness_to_whole_num_def loop_count_of_def)
  moreover from assms(2) have "0 < da * da" by (auto simp: zero_less_mult_iff)
  ultimately show ?thesis using assms(1) by (simp add: mult_less_0_iff)
qed


text \<open>
  Claim C3. Whenever the depth estimates of a simple loop are computed (no lookup or
  division fails), with combined loop-count estimate \<open>e\<close>: the loop count is 1 and the
  closeness is \<open>e\<close> when \<open>e < 1\<close>; otherwise the loop count is \<open>round e\<close> and the closeness
  is \<open>1 - 2 * min (frac e) (1 - frac e)\<close>, which is 0 at \<open>e = 2.5\<close>; the bridge is
  constructed, and its graph path is \<open>repeat\<close> followed by loop count copies of
  \<open>[middle, repeat]\<close>.
\<close>

theorem loop_unrolling_count_and_path:
  assumes "loop_depth_estimates g start end' middle repeat = Inr (depth_agreement, d, e)"
  shows "loop_count_of e = (if e < 1 then 1 else round e)
       \<and> closeness_to_whole_num e = (if e < 1 then e else 1 - 2 * min (frac e) (1 - frac e))
       \<and> closeness_to_whole_num (5 / 2) = 0
       \<and> (\<exists>b. LoopUnrollingBridge g start end' middle repeat = Inr b
            \<and> graph_path b = repeat # concat (replicate (nat (loop_count_of e)) [middle, repeat])
            \<and> quality b = 10 * (depth_agreement * depth_agreement) * closeness_to_whole_num e
                            * sqrt (1 / of_int (loop_count_of e)))"
proof -
  have "loop_count_of e = (if e < 1 then 1 else round e)"
    by (simp add: loop_count_of_def py_round_eq_round)
  moreover have "closeness_to_whole_num e = (if e < 1 then e else 1 - 2 * min (frac e) (1 - frac e))"
    by (simp add: closeness_to_whole_num_def frac_def Let_def)
  moreover have "closeness_to_whole_num (5 / 2) = 0"
    by (simp add: closeness_to_whole_num_def)
  moreover note LoopUnrollingBridge_from_estimates [OF assms]
  ultimately show ?thesis by (simp add: unrolled_path_eq)
qed

theorem loop_unrolling_count_and_path_witness:
  "\<exists>b. LoopUnrollingBridge double_loop_graph 1 2 3 4 = Inr b
      \<and> graph_path b = [4, 3, 4, 3, 4]"
proof -
  have est: "loop_depth_estimates double_loop_graph 1 2 3 4 = Inr (1, 10, 2)"
    by (simp add: eval_defs double_loop_graph_def)
  have "loop_count_of 2 = 2" by (simp add: loop_count_of_def py_round_def)
  with loop_unrolling_count_and_path [OF est] show ?thesis
    by (auto simp: numeral_2_eq_2)
qed

subsection \<open>Two evaluated bridges\<close>

lemma shallow_loop_bridge:
  "\<exists>b. LoopUnrollingBridge shallow_loop_graph 1 2 3 4 = Inr b \<and> quality b = - 4"
  by (simp add: eval_defs)

lemma twice_bridge:
  "SpadesContigBridge twice_graph [1, 4, 5, 4, 2] =
     Inr \<lparr>start_segment = Some 1, end_segment = Some 2, graph_path = [4, 5, 4],
          bridge_sequence = [], bridge_depth = 10, quality = 10\<rparr>"
  by (simp add: eval_defs)

subsection \<open>Depth consistency along a contig bridge\<close>

lemma count_list_remdups: "count_list (remdups xs) x = (if x \<in> set xs then 1 else 0)"
  by (induction xs) auto

text \<open>
  Every segment number of \<open>graph_path_pos_nums\<close> occurs there once, so the expected depth
  the constructor computes is the bridge depth itself, whatever the path.
\<close>

lemma expected_depth_is_bridge_depth:
  "x \<in> set (remdups (map abs path))
     \<Longrightarrow> of_nat (count_list (remdups (map abs path)) x) * d = (d :: real)"
  by (simp add: count_list_remdups)

lemma scale_by_path_depths_returns:
  assumes "0 < d" and "list_all (\<lambda>x. segments g x \<noteq> None) xs" and "set xs \<subseteq> set ys"
  shows "\<exists>q'. scale_by_path_depths g d (remdups ys) xs q = Inr q'"
  using assms(2,3)
proof (induction xs arbitrary: q)
  case Nil
  then show ?case by simp
next
  case (Cons x xs)
  from Cons.prems obtain seg where seg: "lookup_segment g x = Inr seg"
    by (auto simp: lookup_segment_def)
  from Cons.prems assms(1) have "0 < real (count_list (remdups ys) x) * d"
    by (simp add: count_list_remdups)
  from get_num_agreement_pos_right [OF this, of "depth seg"] obtain v where
    "get_num_agreement (depth seg) (real (count_list (remdups ys) x) * d) = Inr v"
    by blast
  with seg Cons show ?case by (simp add: Let_def)
qed

lemma weighted_average_pos:
  assumes "0 < a" and "0 < b" and "0 < w1" and "0 < w2"
  shows "\<exists>d. weighted_average a b w1 w2 = Inr d \<and> 0 < d"
proof -
  from assms have "0 < a * (w1 / (w1 + w2))" "0 < b * (w2 / (w1 + w2))" by simp_all
  then have "0 < a * (w1 / (w1 + w2)) + b * (w2 / (w1 + w2))" by (rule add_pos_pos)
  moreover from assms have "w1 + w2 \<noteq> 0" by simp
  ultimately show ?thesis by (simp add: weighted_average_def Let_def)
qed

text \<open>
  Under the preconditions of the specification (end points of positive depth and
  positive overlap-excluded length, every path segment in the graph) the contig bridge
  constructor returns a bridge.
\<close>

lemma SpadesContigBridge_returns:
  assumes "segments g \<bar>start\<bar> = Some start_seg" and "segments g \<bar>end'\<bar> = Some end_seg"
    and "0 < depth start_seg" and "0 < depth end_seg"
    and "0 < get_length_no_overlap start_seg (overlap g)"
    and "0 < get_length_no_overlap end_seg (overlap g)"
    and "list_all (\<lambda>x. segments g \<bar>x\<bar> \<noteq> None) internal"
  shows "\<exists>b. SpadesContigBridge g (start # internal @ [end']) = Inr b"
proof -
  from get_num_agreement_pos [OF assms(3,4)] obtain a where
    a: "get_num_agreement (depth start_seg) (depth end_seg) = Inr a" by blast
  from assms(5,6) have "0 < real_of_int (get_length_no_overlap start_seg (overlap g))"
    "0 < real_of_int (get_length_no_overlap end_seg (overlap g))" by simp_all
  from weighted_average_pos [OF assms(3,4) this] obtain d where
    d: "get_mean_depth start_seg end_seg g = Inr d" and dpos: "0 < d"
    by (auto simp: get_mean_depth_def)
  from assms(7) have "list_all (\<lambda>x. segments g x \<noteq> None) (remdups (map abs internal))"
    by (auto simp: list_all_iff)
  then have "\<exists>q. scale_by_path_depths g d (remdups (map abs internal))
               (remdups (map abs internal)) (20 * (a * a)) = Inr q"
    by (intro scale_by_path_depths_returns [OF dpos]) simp_all
  then have "\<exists>q. scale_by_depth_consistency g internal start end' d (20 * (a * a)) = Inr q"
    by (cases "path_is_self_contained internal start end' g")
      (simp_all add: scale_by_depth_consistency_def Let_def)
  then obtain q where
    "scale_by_depth_consistency g internal start end' d (20 * (a * a)) = Inr q" by blast
  with assms(1,2) a d show ?thesis
    by (simp add: SpadesContigBridge_def bind_def lookup_segment_def Let_def)
qed

text \<open>
  Claim C1. The expected depth of a path segment is claimed to be its number of
  occurrences in the internal path times the bridge depth. On the contig path
  1, 4, 5, 4, 2 of \<open>twice_graph\<close> the internal path 4, 5, 4 is self-contained and holds
  segment 4 twice, whose depth 20 is twice the bridge depth 10: the claimed factor is
  \<open>get_num_agreement 20 (2 * 10) = 1\<close> and the claimed quality 20. The constructor counts
  the occurrences in the deduplicated list, where the count is 1, multiplies by
  \<open>get_num_agreement 20 (1 * 10) = 1 / 2\<close>, and the quality is 10.
\<close>

theorem contig_bridge_counts_in_deduplicated_list:
  "map_sum id quality (SpadesContigBridge twice_graph [1, 4, 5, 4, 2]) = Inr 10
   \<and> path_is_self_contained [4, 5, 4] 1 2 twice_graph
   \<and> count_list [4, 5, 4] (4 :: int) = 2
   \<and> count_list (remdups (map abs [4, 5, 4])) (4 :: int) = 1
   \<and> get_num_agreement 20 (2 * 10) = Inr 1
   \<and> get_num_agreement 20 (1 * 10) = Inr (1 / 2)"
  by (simp add: twice_bridge)
    (simp add: path_is_self_contained_def twice_graph_def get_num_agreement_def)

subsection \<open>Contig bridge builder: strings and deduplication\<close>

lemma digit_table: "list_all (\<lambda>d. digit_val (digit_char d) = Some d) [0 ..< 10]"
  by code_simp

lemma digit_val_digit_char: "d < 10 \<Longrightarrow> digit_val (digit_char d) = Some d"
  using digit_table by (simp add: list_all_iff)

lemma digit_val_separators: "digit_val CHR ''-'' = None \<and> digit_val CHR '','' = None"
  by code_simp

lemma str_nat_digits: "str_nat n \<noteq> [] \<and> list_all (\<lambda>c. digit_val c \<noteq> None) (str_nat n)"
proof (induction n rule: str_nat.induct)
  case (1 n)
  show ?case
  proof (cases "n < 10")
    case True
    then show ?thesis by (subst (1 2) str_nat.simps) (simp add: digit_val_digit_char)
  next
    case False
    have "n mod 10 < 10" by simp
    with False 1 show ?thesis
      by (subst (1 2) str_nat.simps) (simp add: digit_val_digit_char)
  qed
qed

lemma str_nat_value: "fold (\<lambda>c acc. 10 * acc + the (digit_val c)) (str_nat n) 0 = n"
proof (induction n rule: str_nat.induct)
  case (1 n)
  show ?case
  proof (cases "n < 10")
    case True
    then show ?thesis by (subst str_nat.simps) (simp add: digit_val_digit_char)
  next
    case False
    have "n mod 10 < 10" by simp
    with False 1 show ?thesis
      by (subst str_nat.simps) (simp add: digit_val_digit_char)
  qed
qed

lemma nat_of_digits_str_nat: "nat_of_digits (str_nat n) = Some n"
  using str_nat_digits [of n] by (simp add: nat_of_digits_def str_nat_value)

lemma str_nat_no_minus: "str_nat n = c # cs \<Longrightarrow> c \<noteq> CHR ''-''"
  using str_nat_digits [of n] digit_val_separators by auto

lemma int_of_str_str_int: "int_of_str (str_int i) = Inr i"
proof (cases "i < 0")
  case True
  then show ?thesis by (simp add: int_of_str_def str_int_def nat_of_digits_str_nat)
next
  case False
  obtain c cs where s: "str_nat (nat i) = c # cs"
    using str_nat_digits [of "nat i"] by (cases "str_nat (nat i)") auto
  from str_nat_no_minus [OF s] have "c \<noteq> CHR ''-''" .
  moreover from s have "nat_of_digits (c # cs) = Some (nat i)"
    using nat_of_digits_str_nat [of "nat i"] by simp
  ultimately show ?thesis using False s by (simp add: int_of_str_def str_int_def)
qed

lemma str_int_no_comma: "CHR '','' \<notin> set (str_int i)"
proof -
  have "CHR '','' \<notin> set (str_nat n)" for n
    using str_nat_digits [of n] digit_val_separators by (auto simp: list_all_iff)
  then show ?thesis by (simp add: str_int_def)
qed

lemma split_on_no_sep: "sep \<notin> set w \<Longrightarrow> split_on sep w = [w]"
  by (induction w) auto

lemma split_on_append_sep:
  "sep \<notin> set w \<Longrightarrow> split_on sep (w @ sep # rest) = w # split_on sep rest"
  by (induction w) (auto split: list.splits)

lemma split_on_join:
  "ws \<noteq> [] \<Longrightarrow> list_all (\<lambda>w. sep \<notin> set w) ws \<Longrightarrow> split_on sep (join [sep] ws) = ws"
proof (induction "[sep]" ws rule: join.induct)
  case 1
  then show ?case by simp
next
  case (2 x)
  then show ?case by (simp add: split_on_no_sep)
next
  case (3 x y ys)
  then show ?case by (simp add: split_on_append_sep)
qed

lemma map_res_map: "(\<And>x. f (g x) = Inr x) \<Longrightarrow> map_res f (map g xs) = Inr xs"
  by (induction xs) simp_all

lemma parse_path_path_str: "path \<noteq> [] \<Longrightarrow> parse_path (path_str path) = Inr path"
proof -
  assume "path \<noteq> []"
  then have "split_on CHR '','' (join '','' (map str_int path)) = map str_int path"
    by (intro split_on_join) (simp_all add: list_all_iff str_int_no_comma)
  then show ?thesis by (simp add: parse_path_def path_str_def map_res_map int_of_str_str_int)
qed

lemma path_str_inject:
  assumes "p \<noteq> []" and "q \<noteq> []" and "path_str p = path_str q"
  shows "p = q"
proof -
  from assms have "parse_path (path_str p) = parse_path (path_str q)" by simp
  with assms(1,2) show ?thesis by (simp add: parse_path_path_str)
qed


lemma flip_path_twice: "flip_path (flip_path p) = p"
  by (simp add: flip_path_def rev_map)

lemma flip_path_Nil_iff: "flip_path p = [] \<longleftrightarrow> p = []"
  by (simp add: flip_path_def)

lemma flip_path_ends: "p \<noteq> [] \<Longrightarrow> hd (flip_path p) = - last p \<and> last (flip_path p) = - hd p"
  by (simp add: flip_path_def hd_map last_map hd_rev last_rev)

lemma dedup_inv_empty: "dedup_inv []"
  by (simp add: dedup_inv_def)

lemma dedup_inv_add:
  assumes inv: "dedup_inv S" and x: "x \<noteq> []" "\<not> (hd x < 0 \<and> last x < 0)"
    and fresh: "path_str x \<notin> set S" "path_str (flip_path x) \<notin> set S"
  shows "dedup_inv (S @ [path_str x])"
proof -
  have "flip_path p = p"
    if p: "p \<noteq> []" and a: "path_str p \<in> set (S @ [path_str x])"
      and b: "path_str (flip_path p) \<in> set (S @ [path_str x])" for p
  proof -
    from p have fp: "flip_path p \<noteq> []" by (simp add: flip_path_Nil_iff)
    show ?thesis
    proof (cases "path_str p = path_str x")
      case True
      with p x(1) have px: "p = x" by (auto dest: path_str_inject)
      with b fresh(2) have "path_str (flip_path p) = path_str x" by simp
      with fp x(1) px show ?thesis by (auto dest: path_str_inject)
    next
      case False
      with a have pS: "path_str p \<in> set S" by simp
      show ?thesis
      proof (cases "path_str (flip_path p) = path_str x")
        case True
        with fp x(1) have "flip_path p = x" by (auto dest: path_str_inject)
        then have "p = flip_path x" by (metis flip_path_twice)
        with pS fresh(2) show ?thesis by simp
      next
        case False
        with b have "path_str (flip_path p) \<in> set S" by simp
        with inv p pS show ?thesis by (simp add: dedup_inv_def)
      qed
    qed
  qed
  with inv x fresh(1) show ?thesis
    by (auto simp: dedup_inv_def)
qed

lemma add_contig_bridge_step:
  assumes inv: "dedup_inv S" and c: "c \<noteq> []"
  shows "\<exists>S'. add_contig_bridge c S = Inr S' \<and> dedup_inv S' \<and> set S \<subseteq> set S'
           \<and> (path_str c \<in> set S' \<or> path_str (flip_path c) \<in> set S')"
proof (cases "path_str c \<notin> set S \<and> path_str (flip_path c) \<notin> set S")
  case False
  with inv show ?thesis by (auto simp: add_contig_bridge_def Let_def)
next
  case fresh: True
  from c obtain first rest where cons: "c = first # rest" by (cases c) auto
  show ?thesis
  proof (cases "first < 0 \<and> last c < 0")
    case True
    with fresh cons have r: "add_contig_bridge c S = Inr (S @ [path_str (flip_path c)])"
      by (simp add: add_contig_bridge_def Let_def)
    from True cons flip_path_ends [OF c]
    have "\<not> (hd (flip_path c) < 0 \<and> last (flip_path c) < 0)" by simp
    with inv c fresh have "dedup_inv (S @ [path_str (flip_path c)])"
      by (intro dedup_inv_add) (simp_all add: flip_path_Nil_iff flip_path_twice)
    with r show ?thesis by auto
  next
    case False
    with fresh cons have r: "add_contig_bridge c S = Inr (S @ [path_str c])"
      by (auto simp: add_contig_bridge_def Let_def split: if_splits)
    from False cons have "\<not> (hd c < 0 \<and> last c < 0)" by simp
    with inv c fresh have "dedup_inv (S @ [path_str c])"
      by (intro dedup_inv_add) simp_all
    with r show ?thesis by auto
  qed
qed

lemma fold_add_contig_bridge:
  assumes "list_all (\<lambda>c. c \<noteq> []) cs" and "dedup_inv S"
  shows "\<exists>S'. fold_res add_contig_bridge cs S = Inr S' \<and> dedup_inv S' \<and> set S \<subseteq> set S'
           \<and> list_all (\<lambda>c. path_str c \<in> set S' \<or> path_str (flip_path c) \<in> set S') cs"
  using assms
proof (induction cs arbitrary: S)
  case Nil
  then show ?case by simp
next
  case (Cons c cs)
  from Cons.prems have c: "c \<noteq> []" and cs: "list_all (\<lambda>c. c \<noteq> []) cs" by simp_all
  from add_contig_bridge_step [OF Cons.prems(2) c] obtain S1 where
    s1: "add_contig_bridge c S = Inr S1" and inv1: "dedup_inv S1" and sub1: "set S \<subseteq> set S1"
    and in1: "path_str c \<in> set S1 \<or> path_str (flip_path c) \<in> set S1"
    by blast
  from Cons.IH [OF cs inv1] obtain S' where
    s': "fold_res add_contig_bridge cs S1 = Inr S'" and inv': "dedup_inv S'"
    and sub': "set S1 \<subseteq> set S'"
    and in': "list_all (\<lambda>c. path_str c \<in> set S' \<or> path_str (flip_path c) \<in> set S') cs"
    by blast
  from s1 s' have "fold_res add_contig_bridge (c # cs) S = Inr S'" by simp
  moreover from sub1 sub' have "set S \<subseteq> set S'" by blast
  moreover from in1 sub' have "path_str c \<in> set S' \<or> path_str (flip_path c) \<in> set S'" by blast
  ultimately show ?case using inv' in' by simp
qed

lemma dedup_fold_result:
  assumes "list_all (\<lambda>c. c \<noteq> []) contig_bridges"
    and "c \<in> set contig_bridges \<or> flip_path c \<in> set contig_bridges"
  shows "\<exists>S. fold_res add_contig_bridge contig_bridges [] = Inr S
           \<and> card ({path_str c, path_str (flip_path c)} \<inter> set S) = 1
           \<and> list_all (\<lambda>s. \<exists>p. p \<noteq> [] \<and> s = path_str p \<and> parse_path s = Inr p
                               \<and> \<not> (hd p < 0 \<and> last p < 0)) S"
proof -
  from fold_add_contig_bridge [OF assms(1) dedup_inv_empty] obtain S where
    S: "fold_res add_contig_bridge contig_bridges [] = Inr S" and inv: "dedup_inv S"
    and seen: "list_all (\<lambda>c. path_str c \<in> set S \<or> path_str (flip_path c) \<in> set S) contig_bridges"
    by blast
  from assms have c: "c \<noteq> []" by (auto simp: list_all_iff flip_path_Nil_iff)
  from assms(2) seen have one: "path_str c \<in> set S \<or> path_str (flip_path c) \<in> set S"
    by (auto simp: list_all_iff flip_path_twice)
  have "card ({path_str c, path_str (flip_path c)} \<inter> set S) = 1"
  proof (cases "path_str c \<in> set S \<and> path_str (flip_path c) \<in> set S")
    case True
    with inv c have "flip_path c = c" by (simp add: dedup_inv_def)
    with True show ?thesis by simp
  next
    case False
    with one have "{path_str c, path_str (flip_path c)} \<inter> set S = {path_str c}
                 \<or> {path_str c, path_str (flip_path c)} \<inter> set S = {path_str (flip_path c)}"
      by auto
    then show ?thesis by (elim disjE) simp_all
  qed
  moreover from inv
  have "list_all (\<lambda>s. \<exists>p. p \<noteq> [] \<and> s = path_str p \<and> parse_path s = Inr p
                          \<and> \<not> (hd p < 0 \<and> last p < 0)) S"
    unfolding list_all_iff dedup_inv_def
  proof (intro ballI)
    fix s
    assume "distinct S
     \<and> (\<forall>s \<in> set S. \<exists>p. p \<noteq> [] \<and> s = path_str p \<and> \<not> (hd p < 0 \<and> last p < 0))
     \<and> (\<forall>p. p \<noteq> [] \<longrightarrow> path_str p \<in> set S \<longrightarrow> path_str (flip_path p) \<in> set S
            \<longrightarrow> flip_path p = p)" and "s \<in> set S"
    then obtain p where p: "p \<noteq> []" "s = path_str p" "\<not> (hd p < 0 \<and> last p < 0)"
      by blast
    from parse_path_path_str [OF p(1)] p
    show "\<exists>p. p \<noteq> [] \<and> s = path_str p \<and> parse_path s = Inr p \<and> \<not> (hd p < 0 \<and> last p < 0)"
      by blast
  qed
  ultimately show ?thesis using S by blast
qed

lemma fold_res_append:
  "fold_res f (xs @ ys) s = bind (fold_res f xs s) (fold_res f ys)"
  by (induction xs arbitrary: s) (simp_all add: bind_def split: sum.splits)

lemma fold_res_concat:
  "fold_res (\<lambda>x. fold_res f (h x)) xs s = fold_res f (concat (map h xs)) s"
  by (induction xs arbitrary: s) (simp_all add: fold_res_append bind_def split: sum.splits)

lemma fold_res_concat_fun:
  "fold_res (\<lambda>x. fold_res f (h x)) xs = fold_res f (concat (map h xs))"
  by (rule ext) (rule fold_res_concat)

lemma collect_bridge_paths_fold:
  "collect_bridge_paths g single_copy_segments
     = fold_res add_contig_bridge (candidate_bridges g single_copy_segments) []"
  by (simp add: collect_bridge_paths_def candidate_bridges_def Let_def fold_res_concat_fun)

lemma candidate_bridges_nonempty:
  "list_all (\<lambda>c. c \<noteq> []) (candidate_bridges g single_copy_segments)"
  by (auto simp: candidate_bridges_def contig_bridges_of_def find_contig_bridges_def
      list_all_iff Let_def)

text \<open>
  Claim C6. Whatever the order in which the non-empty contig bridges are met: when a
  contig bridge or its reverse complement is among them, the loop ends without error and
  exactly one of the two strings (that of the bridge, that of its reverse complement) is
  stored; every stored string is the string of a path that is read back from it and does
  not have both its first and its last element negative. The builder's set is the result
  of this loop on its contig bridges, which are all non-empty.
\<close>

theorem contig_bridge_dedup_orientation_invariant:
  assumes "list_all (\<lambda>c. c \<noteq> []) contig_bridges"
    and "c \<in> set contig_bridges \<or> flip_path c \<in> set contig_bridges"
  shows "(\<exists>S. fold_res add_contig_bridge contig_bridges [] = Inr S
            \<and> card ({path_str c, path_str (flip_path c)} \<inter> set S) = 1
            \<and> list_all (\<lambda>s. \<exists>p. p \<noteq> [] \<and> s = path_str p \<and> parse_path s = Inr p
                                \<and> \<not> (hd p < 0 \<and> last p < 0)) S)
       \<and> collect_bridge_paths g single_copy_segments
            = fold_res add_contig_bridge (candidate_bridges g single_copy_segments) []
       \<and> list_all (\<lambda>c. c \<noteq> []) (candidate_bridges g single_copy_segments)"
  using dedup_fold_result [OF assms] collect_bridge_paths_fold [of g single_copy_segments]
    candidate_bridges_nonempty [of g single_copy_segments]
  by simp

theorem contig_bridge_dedup_orientation_invariant_witness:
  "fold_res add_contig_bridge [[- 7, 5, - 3], [3, - 5, 7]] [] = Inr [''3,-5,7'']
   \<and> fold_res add_contig_bridge [[3, - 5, 7], [- 7, 5, - 3]] [] = Inr [''3,-5,7'']
   \<and> card ({path_str [3, - 5, 7], path_str [- 7, 5, - 3]} \<inter> set [''3,-5,7'']) = 1"
proof -
  have a: "fold_res add_contig_bridge [[- 7, 5, - 3], [3, - 5, 7]] [] = Inr [''3,-5,7'']"
    by code_simp
  have b: "fold_res add_contig_bridge [[3, - 5, 7], [- 7, 5, - 3]] [] = Inr [''3,-5,7'']"
    by code_simp
  have f: "flip_path [3, - 5, 7] = [- 7, 5, - 3]" by (simp add: flip_path_def)
  from contig_bridge_dedup_orientation_invariant [of "[[- 7, 5, - 3], [3, - 5, 7]]" "[3, - 5, 7]"]
    a b f show ?thesis by simp
qed

text \<open>
  When the ends of a contig bridge have different signs, neither orientation has two
  negative ends, and the orientation that is met first is the one that is stored.
\<close>

lemma mixed_ends_keep_first_orientation:
  "fold_res add_contig_bridge [[3, - 5, - 7], [7, 5, - 3]] [] = Inr [''3,-5,-7'']
   \<and> fold_res add_contig_bridge [[7, 5, - 3], [3, - 5, - 7]] [] = Inr [''7,5,-3'']"
  by code_simp

subsection \<open>Contig bridge builder: conflicts\<close>

lemma set_add_key:
  "set (add_key k d) = (if k \<in> fst ` set d then set d else insert (k, []) (set d))"
  by (simp add: add_key_def)

lemma keys_add_key: "fst ` set (add_key k d) = insert k (fst ` set d)"
  by (auto simp: add_key_def)

lemma set_append_value:
  "set (append_value k x d) = (\<lambda>(k', xs). (k', if k' = k then xs @ [x] else xs)) ` set d"
proof -
  have "(\<lambda>(k', xs). if k' = k then (k', xs @ [x]) else (k', xs))
          = (\<lambda>(k', xs). (k', if k' = k then xs @ [x] else xs))"
    by (auto simp: fun_eq_iff)
  then show ?thesis by (simp add: append_value_def)
qed

lemma keys_append_value: "fst ` set (append_value k x d) = fst ` set d"
  by (force simp: set_append_value image_iff split: prod.splits)

lemma bucket_entries_snoc:
  "bucket_entries ka kb (l @ [p]) k
     = bucket_entries ka kb l k @ (if ka p = k then [p] else []) @ (if kb p = k then [p] else [])"
  by (simp add: bucket_entries_def)

lemma bucket_entries_empty:
  "list_all (\<lambda>q. ka q \<noteq> k \<and> kb q \<noteq> k) l \<Longrightarrow> bucket_entries ka kb l k = []"
  by (induction l) (simp_all add: bucket_entries_def)

lemma dict_inv_fresh_key:
  assumes "dict_inv ka kb d l" and "k \<notin> fst ` set d"
  shows "bucket_entries ka kb l k = []"
proof -
  from assms have "list_all (\<lambda>q. ka q \<noteq> k \<and> kb q \<noteq> k) l"
    by (auto simp: dict_inv_def list_all_iff)
  then show ?thesis by (rule bucket_entries_empty)
qed

lemma dict_inv_add_key:
  assumes "dict_inv ka kb d l"
  shows "dict_inv ka kb (add_key k d) l"
proof (cases "k \<in> fst ` set d")
  case True
  with assms show ?thesis by (simp add: add_key_def)
next
  case False
  from dict_inv_fresh_key [OF assms False] assms False show ?thesis
    by (auto simp: dict_inv_def add_key_def list_all_iff)
qed

lemma dict_inv_step:
  assumes "dict_inv ka kb d l"
  shows "dict_inv ka kb (index_step ka kb p d) (l @ [p])"
proof -
  let ?d1 = "add_key (kb p) (add_key (ka p) d)"
  from assms have inv1: "dict_inv ka kb ?d1 l" by (intro dict_inv_add_key)
  have keys1: "fst ` set ?d1 = insert (kb p) (insert (ka p) (fst ` set d))"
    by (simp add: keys_add_key)
  have keys: "fst ` set (index_step ka kb p d) = fst ` set ?d1"
    by (simp add: index_step_def keys_append_value)
  have "v = bucket_entries ka kb (l @ [p]) k" if "(k, v) \<in> set (index_step ka kb p d)" for k v
  proof -
    from that obtain v0 where v0: "(k, v0) \<in> set ?d1"
      and v: "v = (if k = kb p then (if k = ka p then v0 @ [p] else v0) @ [p]
                   else (if k = ka p then v0 @ [p] else v0))"
      by (auto simp: index_step_def set_append_value split: if_splits)
    from inv1 v0 have "v0 = bucket_entries ka kb l k" by (auto simp: dict_inv_def list_all_iff)
    with v show ?thesis by (auto simp: bucket_entries_snoc)
  qed
  moreover from inv1 have "list_all (\<lambda>q. ka q \<in> fst ` set ?d1 \<and> kb q \<in> fst ` set ?d1) l"
    by (simp add: dict_inv_def)
  ultimately show ?thesis
    unfolding dict_inv_def keys by (auto simp: list_all_iff keys1)
qed

lemma index_bridge_path_step:
  "path \<noteq> [] \<Longrightarrow> index_bridge_path path dicts =
     Inr (index_step hd (\<lambda>p. - last p) path (fst dicts),
          index_step last (\<lambda>p. - hd p) path (snd dicts))"
  by (cases path) (simp_all add: index_bridge_path_def index_step_def Let_def)

lemma fold_index_bridge_path:
  assumes "list_all (\<lambda>p. p \<noteq> []) l"
    and "dict_inv hd (\<lambda>p. - last p) (fst dicts) l0"
    and "dict_inv last (\<lambda>p. - hd p) (snd dicts) l0"
  shows "\<exists>dicts'. fold_res index_bridge_path l dicts = Inr dicts'
           \<and> dict_inv hd (\<lambda>p. - last p) (fst dicts') (l0 @ l)
           \<and> dict_inv last (\<lambda>p. - hd p) (snd dicts') (l0 @ l)"
  using assms
proof (induction l arbitrary: dicts l0)
  case Nil
  then show ?case by simp
next
  case (Cons p l)
  from Cons.prems(1) have p: "p \<noteq> []" and l: "list_all (\<lambda>p. p \<noteq> []) l" by simp_all
  let ?d = "(index_step hd (\<lambda>p. - last p) p (fst dicts),
             index_step last (\<lambda>p. - hd p) p (snd dicts))"
  have a: "dict_inv hd (\<lambda>p. - last p) (fst ?d) (l0 @ [p])"
    using dict_inv_step [OF Cons.prems(2)] by simp
  have b: "dict_inv last (\<lambda>p. - hd p) (snd ?d) (l0 @ [p])"
    using dict_inv_step [OF Cons.prems(3)] by simp
  from Cons.IH [OF l a b] index_bridge_path_step [OF p, of dicts]
  show ?case by simp
qed


lemma length_bucket_entries:
  "length (bucket_entries ka kb l k)
     = sum_list (map (\<lambda>q. (if ka q = k then 1 else 0) + (if kb q = k then 1 else 0)) l)"
  by (induction l) (simp_all add: bucket_entries_def)

lemma set_bucket_entries:
  "set (bucket_entries ka kb l k) = {q \<in> set l. ka q = k \<or> kb q = k}"
  by (auto simp: bucket_entries_def split: if_splits)

lemma bucket_conflict:
  assumes "distinct l" and "p \<in> set l" and "ka p = k \<or> kb p = k"
  shows "1 < length (bucket_entries ka kb l k)
           \<longleftrightarrow> (ka p = k \<and> kb p = k) \<or> (\<exists>q \<in> set l. q \<noteq> p \<and> (ka q = k \<or> kb q = k))"
proof -
  let ?c = "\<lambda>q. (if ka q = k then 1 else 0) + (if kb q = k then 1 else (0::nat))"
  let ?rest = "sum_list (map ?c (remove1 p l))"
  from assms(2) have "sum_list (map ?c l) = ?c p + ?rest"
    by (rule sum_list_map_remove1)
  then have len: "length (bucket_entries ka kb l k) = ?c p + ?rest"
    by (simp add: length_bucket_entries)
  from assms(1) have "set (remove1 p l) = set l - {p}" by simp
  then have rest: "0 < ?rest \<longleftrightarrow> (\<exists>q \<in> set l. q \<noteq> p \<and> (ka q = k \<or> kb q = k))"
    by (auto simp: sum_list_eq_0_iff neq0_conv [symmetric] simp del: neq0_conv)
  from assms(3) have "1 \<le> ?c p" by auto
  moreover have "?c p = 2 \<longleftrightarrow> ka p = k \<and> kb p = k" by auto
  moreover have "?c p \<le> 2" by auto
  ultimately have "1 < ?c p + ?rest \<longleftrightarrow> (ka p = k \<and> kb p = k) \<or> 0 < ?rest"
    by linarith
  with len rest show ?thesis by simp
qed

lemma conflicting_iff:
  assumes inv: "dict_inv ka kb d l" and dist: "distinct l" and p: "p \<in> set l"
  shows "(\<exists>(k, v) \<in> set d. 1 < length v \<and> p \<in> set v)
           \<longleftrightarrow> ka p = kb p
               \<or> (\<exists>q \<in> set l. q \<noteq> p \<and> (ka q = ka p \<or> kb q = ka p \<or> ka q = kb p \<or> kb q = kb p))"
    (is "?L \<longleftrightarrow> ?R")
proof
  assume ?L
  then obtain k v where kv: "(k, v) \<in> set d" and len: "1 < length v" and pv: "p \<in> set v"
    by blast
  from inv kv have v: "v = bucket_entries ka kb l k" by (auto simp: dict_inv_def list_all_iff)
  with pv have key: "ka p = k \<or> kb p = k" by (simp add: set_bucket_entries)
  from len v bucket_conflict [where ka = ka and kb = kb, OF dist p key]
  have "(ka p = k \<and> kb p = k) \<or> (\<exists>q \<in> set l. q \<noteq> p \<and> (ka q = k \<or> kb q = k))" by simp
  with key show ?R by auto
next
  assume R: ?R
  have bucket: "\<exists>(k', v) \<in> set d. 1 < length v \<and> p \<in> set v"
    if key: "ka p = k \<or> kb p = k"
      and c: "(ka p = k \<and> kb p = k) \<or> (\<exists>q \<in> set l. q \<noteq> p \<and> (ka q = k \<or> kb q = k))" for k
  proof -
    from inv p key have "k \<in> fst ` set d" by (auto simp: dict_inv_def list_all_iff)
    then obtain v where kv: "(k, v) \<in> set d" by auto
    with inv have v: "v = bucket_entries ka kb l k" by (auto simp: dict_inv_def list_all_iff)
    from c bucket_conflict [where ka = ka and kb = kb, OF dist p key] v have "1 < length v" by simp
    moreover from v p key have "p \<in> set v" by (simp add: set_bucket_entries)
    ultimately show ?thesis using kv by blast
  qed
  from R consider "ka p = kb p"
    | "\<exists>q \<in> set l. q \<noteq> p \<and> (ka q = ka p \<or> kb q = ka p)"
    | "\<exists>q \<in> set l. q \<noteq> p \<and> (ka q = kb p \<or> kb q = kb p)"
    by blast
  then show ?L
  proof cases
    case 1
    then show ?thesis by (intro bucket [of "ka p"]) simp_all
  next
    case 2
    then show ?thesis by (intro bucket [of "ka p"]) simp_all
  next
    case 3
    then show ?thesis by (intro bucket [of "kb p"]) simp_all
  qed
qed

lemma set_no_dups_fold:
  "set (fold (\<lambda>x acc. if x \<in> set acc then acc else acc @ [x]) xs acc) = set xs \<union> set acc"
  by (induction xs arbitrary: acc) auto

lemma set_no_dups: "set (no_dups xs) = set xs"
  by (simp add: no_dups_def set_no_dups_fold)

lemma set_conflicting_paths_of:
  "p \<in> set (conflicting_paths_of dicts)
     \<longleftrightarrow> (\<exists>(k, v) \<in> set (fst dicts). 1 < length v \<and> p \<in> set v)
         \<or> (\<exists>(k, v) \<in> set (snd dicts). 1 < length v \<and> p \<in> set v)"
  by (auto simp: conflicting_paths_of_def set_no_dups)

lemma dict_inv_empty: "dict_inv ka kb [] []"
  by (simp add: dict_inv_def)

lemma final_bridge_paths_filter:
  assumes "list_all (\<lambda>p. p \<noteq> []) bridge_path_list" and "distinct bridge_path_list"
  shows "final_bridge_paths bridge_path_list =
           Inr (filter (\<lambda>p. \<not> (hd p = - last p
                  \<or> (\<exists>q \<in> set bridge_path_list. q \<noteq> p
                        \<and> (hd q = hd p \<or> last q = last p \<or> hd q = - last p \<or> last q = - hd p))))
                 bridge_path_list)"
proof -
  let ?l = bridge_path_list
  from fold_index_bridge_path [OF assms(1), of "([], [])" "[]"] obtain dicts where
    d: "fold_res index_bridge_path ?l ([], []) = Inr dicts"
    and s: "dict_inv hd (\<lambda>p. - last p) (fst dicts) ?l"
    and e: "dict_inv last (\<lambda>p. - hd p) (snd dicts) ?l"
    by (auto simp: dict_inv_empty)
  have "p \<in> set (conflicting_paths_of dicts)
          \<longleftrightarrow> hd p = - last p
              \<or> (\<exists>q \<in> set ?l. q \<noteq> p
                    \<and> (hd q = hd p \<or> last q = last p \<or> hd q = - last p \<or> last q = - hd p))"
    if p: "p \<in> set ?l" for p
    unfolding set_conflicting_paths_of
      conflicting_iff [OF s assms(2) p] conflicting_iff [OF e assms(2) p]
    by auto
  then have "filter (\<lambda>x. x \<notin> set (conflicting_paths_of dicts)) ?l
           = filter (\<lambda>p. \<not> (hd p = - last p
                  \<or> (\<exists>q \<in> set ?l. q \<noteq> p
                        \<and> (hd q = hd p \<or> last q = last p \<or> hd q = - last p \<or> last q = - hd p)))) ?l"
    by (intro filter_cong) simp_all
  with d show ?thesis by (simp add: final_bridge_paths_def bind_def Let_def)
qed

lemma parse_stored_paths:
  assumes "list_all (\<lambda>s. \<exists>p. p \<noteq> [] \<and> s = path_str p) S"
  shows "\<exists>ps. map_res parse_path S = Inr ps \<and> S = map path_str ps
           \<and> list_all (\<lambda>p. p \<noteq> []) ps"
  using assms
proof (induction S)
  case Nil
  then show ?case by simp
next
  case (Cons s S)
  from Cons.prems obtain p where p: "p \<noteq> []" "s = path_str p" by auto
  from Cons obtain ps where ps: "map_res parse_path S = Inr ps" "S = map path_str ps"
    "list_all (\<lambda>p. p \<noteq> []) ps" by auto
  from p ps have "map_res parse_path (s # S) = Inr (p # ps)"
    by (simp add: parse_path_path_str)
  moreover from p ps have "s # S = map path_str (p # ps)" by simp
  moreover from p ps have "list_all (\<lambda>p. p \<noteq> []) (p # ps)" by simp
  ultimately show ?case by (intro exI [of _ "p # ps"] conjI)
qed

text \<open>
  The list the builder filters is well formed: the set is built without error, read back
  without error, and the sorted list of its paths is distinct and has no empty path.
\<close>

lemma builder_bridge_path_list:
  "\<exists>S l. collect_bridge_paths g single_copy_segments = Inr S
         \<and> bridge_path_list_of S = Inr l \<and> distinct l \<and> list_all (\<lambda>p. p \<noteq> []) l"
proof -
  from fold_add_contig_bridge [OF candidate_bridges_nonempty dedup_inv_empty]
  obtain S where S: "collect_bridge_paths g single_copy_segments = Inr S"
    and inv: "dedup_inv S"
    by (auto simp: collect_bridge_paths_fold)
  from inv have "list_all (\<lambda>s. \<exists>p. p \<noteq> [] \<and> s = path_str p) S"
    by (auto simp: dedup_inv_def list_all_iff)
  from parse_stored_paths [OF this] obtain ps where
    ps: "map_res parse_path S = Inr ps" "S = map path_str ps" "list_all (\<lambda>p. p \<noteq> []) ps"
    by blast
  from inv ps(2) have "distinct ps" by (auto simp: dedup_inv_def distinct_map)
  with ps have "bridge_path_list_of S = Inr (sort ps) \<and> distinct (sort ps)
      \<and> list_all (\<lambda>p. p \<noteq> []) (sort ps)"
    by (simp add: bridge_path_list_of_def bind_def list_all_iff)
  with S show ?thesis by blast
qed

lemma hairpin_builder:
  "collect_bridge_paths hairpin_graph [example_segment 3 10 100] = Inr [''3,5,-3'']
   \<and> bridge_path_list_of [''3,5,-3''] = Inr [[3, 5, - 3]]
   \<and> final_bridge_paths [[3, 5, - 3]] = Inr []
   \<and> create_spades_contig_bridges hairpin_graph [example_segment 3 10 100] 0 = Inr []"
  by code_simp

text \<open>
  Claim C5 as stated fails: the contig path 3, 5, -3 of \<open>hairpin_graph\<close> gives the lone
  bridge path 3, 5, -3, which shares no key with a distinct path, and it is dropped. Its
  start 3 is also the negation of its end, so it is appended twice to the bucket of key 3
  (and twice to the bucket of key -3 of the other dictionary), and a bucket of length 2 is
  a conflict.
\<close>

theorem lone_path_dropped_counterexample:
  "\<not> (\<forall>l p. list_all (\<lambda>p. p \<noteq> []) l \<and> distinct l \<and> p \<in> set l
          \<and> \<not> (\<exists>q \<in> set l. q \<noteq> p
                  \<and> (hd q = hd p \<or> last q = last p \<or> hd q = - last p \<or> last q = - hd p))
        \<longrightarrow> (\<exists>kept. final_bridge_paths l = Inr kept \<and> p \<in> set kept))"
proof
  assume "\<forall>l p. list_all (\<lambda>p. p \<noteq> []) l \<and> distinct l \<and> p \<in> set l
          \<and> \<not> (\<exists>q \<in> set l. q \<noteq> p
                  \<and> (hd q = hd p \<or> last q = last p \<or> hd q = - last p \<or> last q = - hd p))
        \<longrightarrow> (\<exists>kept. final_bridge_paths l = Inr kept \<and> p \<in> set kept)"
  then have "list_all (\<lambda>p. p \<noteq> []) [[3, 5, - 3 :: int]] \<and> distinct [[3, 5, - 3 :: int]]
          \<and> [3, 5, - 3] \<in> set [[3, 5, - 3 :: int]]
          \<and> \<not> (\<exists>q \<in> set [[3, 5, - 3 :: int]]. q \<noteq> [3, 5, - 3]
                  \<and> (hd q = hd [3, 5, - 3 :: int] \<or> last q = last [3, 5, - 3 :: int]
                      \<or> hd q = - last [3, 5, - 3 :: int] \<or> last q = - hd [3, 5, - 3 :: int]))
        \<longrightarrow> (\<exists>kept. final_bridge_paths [[3, 5, - 3]] = Inr kept \<and> [3, 5, - 3] \<in> set kept)"
    by blast
  moreover have "final_bridge_paths [[3, 5, - 3]] = Inr []" using hairpin_builder by simp
  ultimately show False by simp
qed

text \<open>
  What the builder constructs: the members of a bridge the constructor returns are the
  ends and the inside of its contig path, and the builder hands the constructor the paths
  that pass the conflict filter, in order, and nothing else.
\<close>

lemma SpadesContigBridge_members:
  assumes "SpadesContigBridge g p = Inr b"
  shows "start_segment b = Some (hd p) \<and> graph_path b = butlast (tl p)
         \<and> end_segment b = Some (last p) \<and> 2 \<le> length p"
proof (cases p)
  case Nil
  with assms show ?thesis by (simp add: SpadesContigBridge_def)
next
  case (Cons start popped)
  with assms have ne: "popped \<noteq> []" by (auto simp: SpadesContigBridge_def)
  from assms Cons ne obtain d q where
    "b = \<lparr>start_segment = Some start, end_segment = Some (last popped),
          graph_path = butlast popped, bridge_sequence = get_path_sequence g (butlast popped),
          bridge_depth = d, quality = q\<rparr>"
    by (auto simp: SpadesContigBridge_def Let_def bind_Inr_iff)
  with Cons ne show ?thesis by (cases popped) simp_all
qed

lemma map_res_members:
  assumes "map_res f xs = Inr ys"
  shows "list_all2 (\<lambda>x y. f x = Inr y) xs ys"
  using assms
  by (induction xs arbitrary: ys) (auto split: sum.splits)

lemma builder_maps_constructor:
  "\<exists>S l. collect_bridge_paths g single_copy_segments = Inr S
         \<and> bridge_path_list_of S = Inr l \<and> distinct l \<and> list_all (\<lambda>p. p \<noteq> []) l
         \<and> create_spades_contig_bridges g single_copy_segments verbosity
             = map_res (SpadesContigBridge g)
                 (filter (\<lambda>p. \<not> (hd p = - last p
                    \<or> (\<exists>q \<in> set l. q \<noteq> p
                          \<and> (hd q = hd p \<or> last q = last p \<or> hd q = - last p \<or> last q = - hd p))))
                  l)"
proof -
  from builder_bridge_path_list [of g single_copy_segments] obtain S l where
    S: "collect_bridge_paths g single_copy_segments = Inr S"
    and l: "bridge_path_list_of S = Inr l" and d: "distinct l"
    and ne: "list_all (\<lambda>p. p \<noteq> []) l"
    by blast
  from final_bridge_paths_filter [OF ne d] S l
  have "create_spades_contig_bridges g single_copy_segments verbosity
             = map_res (SpadesContigBridge g)
                 (filter (\<lambda>p. \<not> (hd p = - last p
                    \<or> (\<exists>q \<in> set l. q \<noteq> p
                          \<and> (hd q = hd p \<or> last q = last p \<or> hd q = - last p \<or> last q = - hd p))))
                  l)"
    by (simp add: create_spades_contig_bridges_def bind_def)
  with S l d ne show ?thesis by blast
qed

lemma builder_bridges_are_kept_paths:
  assumes "create_spades_contig_bridges g single_copy_segments verbosity = Inr bs"
    and "collect_bridge_paths g single_copy_segments = Inr S"
    and "bridge_path_list_of S = Inr l"
  shows "map (\<lambda>b. (start_segment b, graph_path b, end_segment b)) bs
         = map (\<lambda>p. (Some (hd p), butlast (tl p), Some (last p)))
             (filter (\<lambda>p. \<not> (hd p = - last p
                    \<or> (\<exists>q \<in> set l. q \<noteq> p
                          \<and> (hd q = hd p \<or> last q = last p \<or> hd q = - last p \<or> last q = - hd p))))
                  l)"
proof -
  from builder_maps_constructor [of g single_copy_segments verbosity] assms
  have "map_res (SpadesContigBridge g)
          (filter (\<lambda>p. \<not> (hd p = - last p
                    \<or> (\<exists>q \<in> set l. q \<noteq> p
                          \<and> (hd q = hd p \<or> last q = last p \<or> hd q = - last p \<or> last q = - hd p))))
                  l) = Inr bs"
    by auto
  from map_res_members [OF this]
  show ?thesis
    by (induction rule: list_all2_induct) (simp_all add: SpadesContigBridge_members)
qed

lemma lone_path_becomes_bridge:
  assumes "collect_bridge_paths g single_copy_segments = Inr S"
    and "bridge_path_list_of S = Inr [start # internal @ [end']]"
    and "start \<noteq> - end'"
    and "segments g \<bar>start\<bar> = Some start_seg" and "segments g \<bar>end'\<bar> = Some end_seg"
    and "0 < depth start_seg" and "0 < depth end_seg"
    and "0 < get_length_no_overlap start_seg (overlap g)"
    and "0 < get_length_no_overlap end_seg (overlap g)"
    and "list_all (\<lambda>x. segments g \<bar>x\<bar> \<noteq> None) internal"
  shows "\<exists>b. create_spades_contig_bridges g single_copy_segments verbosity = Inr [b]
           \<and> start_segment b = Some start \<and> graph_path b = internal
           \<and> end_segment b = Some end'"
proof -
  from SpadesContigBridge_returns [OF assms(4-10)] obtain b where
    b: "SpadesContigBridge g (start # internal @ [end']) = Inr b" by blast
  from builder_maps_constructor [of g single_copy_segments verbosity] assms(1-3) b
  have "create_spades_contig_bridges g single_copy_segments verbosity = Inr [b]"
    by auto
  with SpadesContigBridge_members [OF b] show ?thesis by simp
qed

text \<open>
  The constructor can fail on a path that the filter keeps: with end segments of length 0
  the weights of the mean depth sum to zero, and the builder raises ZeroDivisionError.
\<close>

lemma kept_path_constructor_raises:
  "collect_bridge_paths flat_chain_graph [example_segment 1 10 0, example_segment 2 10 0]
     = Inr [''1,4,2'']
   \<and> bridge_path_list_of [''1,4,2''] = Inr [[1, 4, 2]]
   \<and> final_bridge_paths [[1, 4, 2]] = Inr [[1, 4, 2]]
   \<and> create_spades_contig_bridges flat_chain_graph
        [example_segment 1 10 0, example_segment 2 10 0] 0 = Inl ZeroDivisionError"
  by code_simp

lemma chain_path_list:
  "collect_bridge_paths chain_graph [example_segment 1 10 100, example_segment 2 10 100]
     = Inr [''1,4,2'']
   \<and> bridge_path_list_of [''1,4,2''] = Inr [[1, 4, 2]]"
  by code_simp

text \<open>
  Claim C5, amended. On a distinct list of non-empty bridge paths, a path is excluded if
  and only if a bucket of one of its keys holds more than one entry: it shares its start,
  its end, the negation of its end or the negation of its start with the same kind of key
  of a distinct path, or its own start is the negation of its end. The lone path 1, 2, 5
  is kept; the paths 1, 2, 5 and 1, 3, 5, which share the start 1, are both dropped.
  The list the builder filters is such a list, the builder's result is the constructor
  applied to the kept paths in order, so the bridges it returns are those of the kept
  paths and of no other, and a lone path whose start is not the negation of its end
  becomes the one bridge of the result when its segments are in the graph and its end
  segments have positive depth and positive length without the overlap.
\<close>

theorem conflict_filter_characterisation:
  assumes "list_all (\<lambda>p. p \<noteq> []) bridge_path_list" and "distinct bridge_path_list"
  shows "final_bridge_paths bridge_path_list =
           Inr (filter (\<lambda>p. \<not> (hd p = - last p
                  \<or> (\<exists>q \<in> set bridge_path_list. q \<noteq> p
                        \<and> (hd q = hd p \<or> last q = last p \<or> hd q = - last p \<or> last q = - hd p))))
                 bridge_path_list)
       \<and> final_bridge_paths [[1, 2, 5]] = Inr [[1, 2, 5]]
       \<and> final_bridge_paths [[1, 2, 5], [1, 3, 5]] = Inr []
       \<and> (\<exists>S l. collect_bridge_paths g single_copy_segments = Inr S
             \<and> bridge_path_list_of S = Inr l \<and> distinct l \<and> list_all (\<lambda>p. p \<noteq> []) l
             \<and> create_spades_contig_bridges g single_copy_segments verbosity
                 = map_res (SpadesContigBridge g)
                 (filter (\<lambda>p. \<not> (hd p = - last p
                    \<or> (\<exists>q \<in> set l. q \<noteq> p
                          \<and> (hd q = hd p \<or> last q = last p \<or> hd q = - last p \<or> last q = - hd p))))
                  l)
             \<and> (\<forall>bs. create_spades_contig_bridges g single_copy_segments verbosity = Inr bs
                  \<longrightarrow> map (\<lambda>b. (start_segment b, graph_path b, end_segment b)) bs
                      = map (\<lambda>p. (Some (hd p), butlast (tl p), Some (last p)))
                 (filter (\<lambda>p. \<not> (hd p = - last p
                    \<or> (\<exists>q \<in> set l. q \<noteq> p
                          \<and> (hd q = hd p \<or> last q = last p \<or> hd q = - last p \<or> last q = - hd p))))
                  l))
             \<and> (\<forall>start internal end' start_seg end_seg.
                  l = [start # internal @ [end']] \<and> start \<noteq> - end'
                  \<and> segments g \<bar>start\<bar> = Some start_seg \<and> segments g \<bar>end'\<bar> = Some end_seg
                  \<and> 0 < depth start_seg \<and> 0 < depth end_seg
                  \<and> 0 < get_length_no_overlap start_seg (overlap g)
                  \<and> 0 < get_length_no_overlap end_seg (overlap g)
                  \<and> list_all (\<lambda>x. segments g \<bar>x\<bar> \<noteq> None) internal
                  \<longrightarrow> (\<exists>b. create_spades_contig_bridges g single_copy_segments verbosity
                             = Inr [b]
                           \<and> start_segment b = Some start \<and> graph_path b = internal
                           \<and> end_segment b = Some end')))"
proof -
  have one: "final_bridge_paths [[1, 2, 5]] = Inr [[1, 2, 5]]" by code_simp
  have two: "final_bridge_paths [[1, 2, 5], [1, 3, 5]] = Inr []" by code_simp
  from builder_maps_constructor [of g single_copy_segments verbosity] obtain S l where
    S: "collect_bridge_paths g single_copy_segments = Inr S"
    and l: "bridge_path_list_of S = Inr l" and d: "distinct l"
    and ne: "list_all (\<lambda>p. p \<noteq> []) l"
    and eq: "create_spades_contig_bridges g single_copy_segments verbosity
               = map_res (SpadesContigBridge g)
                 (filter (\<lambda>p. \<not> (hd p = - last p
                    \<or> (\<exists>q \<in> set l. q \<noteq> p
                          \<and> (hd q = hd p \<or> last q = last p \<or> hd q = - last p \<or> last q = - hd p))))
                  l)"
    by blast
  have kept: "\<forall>bs. create_spades_contig_bridges g single_copy_segments verbosity = Inr bs
                  \<longrightarrow> map (\<lambda>b. (start_segment b, graph_path b, end_segment b)) bs
                      = map (\<lambda>p. (Some (hd p), butlast (tl p), Some (last p)))
                 (filter (\<lambda>p. \<not> (hd p = - last p
                    \<or> (\<exists>q \<in> set l. q \<noteq> p
                          \<and> (hd q = hd p \<or> last q = last p \<or> hd q = - last p \<or> last q = - hd p))))
                  l)"
    using builder_bridges_are_kept_paths [OF _ S l] by blast
  have lone: "\<forall>start internal end' start_seg end_seg.
                  l = [start # internal @ [end']] \<and> start \<noteq> - end'
                  \<and> segments g \<bar>start\<bar> = Some start_seg \<and> segments g \<bar>end'\<bar> = Some end_seg
                  \<and> 0 < depth start_seg \<and> 0 < depth end_seg
                  \<and> 0 < get_length_no_overlap start_seg (overlap g)
                  \<and> 0 < get_length_no_overlap end_seg (overlap g)
                  \<and> list_all (\<lambda>x. segments g \<bar>x\<bar> \<noteq> None) internal
                  \<longrightarrow> (\<exists>b. create_spades_contig_bridges g single_copy_segments verbosity
                             = Inr [b]
                           \<and> start_segment b = Some start \<and> graph_path b = internal
                           \<and> end_segment b = Some end')"
  proof (intro allI impI)
    fix start internal end' start_seg end_seg
    assume a: "l = [start # internal @ [end']] \<and> start \<noteq> - end'
                  \<and> segments g \<bar>start\<bar> = Some start_seg \<and> segments g \<bar>end'\<bar> = Some end_seg
                  \<and> 0 < depth start_seg \<and> 0 < depth end_seg
                  \<and> 0 < get_length_no_overlap start_seg (overlap g)
                  \<and> 0 < get_length_no_overlap end_seg (overlap g)
                  \<and> list_all (\<lambda>x. segments g \<bar>x\<bar> \<noteq> None) internal"
    then have p: "l = [start # internal @ [end']]" "start \<noteq> - end'"
      "segments g \<bar>start\<bar> = Some start_seg" "segments g \<bar>end'\<bar> = Some end_seg"
      "0 < depth start_seg" "0 < depth end_seg"
      "0 < get_length_no_overlap start_seg (overlap g)"
      "0 < get_length_no_overlap end_seg (overlap g)"
      "list_all (\<lambda>x. segments g \<bar>x\<bar> \<noteq> None) internal"
      by blast+
    from l p(1) have l': "bridge_path_list_of S = Inr [start # internal @ [end']]" by simp
    from lone_path_becomes_bridge [OF S l' p(2-9)]
    show "\<exists>b. create_spades_contig_bridges g single_copy_segments verbosity = Inr [b]
                   \<and> start_segment b = Some start \<and> graph_path b = internal
                   \<and> end_segment b = Some end'" .
  qed
  from S l d ne eq kept lone
  have "\<exists>S l. collect_bridge_paths g single_copy_segments = Inr S
             \<and> bridge_path_list_of S = Inr l \<and> distinct l \<and> list_all (\<lambda>p. p \<noteq> []) l
             \<and> create_spades_contig_bridges g single_copy_segments verbosity
                 = map_res (SpadesContigBridge g)
                 (filter (\<lambda>p. \<not> (hd p = - last p
                    \<or> (\<exists>q \<in> set l. q \<noteq> p
                          \<and> (hd q = hd p \<or> last q = last p \<or> hd q = - last p \<or> last q = - hd p))))
                  l)
             \<and> (\<forall>bs. create_spades_contig_bridges g single_copy_segments verbosity = Inr bs
                  \<longrightarrow> map (\<lambda>b. (start_segment b, graph_path b, end_segment b)) bs
                      = map (\<lambda>p. (Some (hd p), butlast (tl p), Some (last p)))
                 (filter (\<lambda>p. \<not> (hd p = - last p
                    \<or> (\<exists>q \<in> set l. q \<noteq> p
                          \<and> (hd q = hd p \<or> last q = last p \<or> hd q = - last p \<or> last q = - hd p))))
                  l))
             \<and> (\<forall>start internal end' start_seg end_seg.
                  l = [start # internal @ [end']] \<and> start \<noteq> - end'
                  \<and> segments g \<bar>start\<bar> = Some start_seg \<and> segments g \<bar>end'\<bar> = Some end_seg
                  \<and> 0 < depth start_seg \<and> 0 < depth end_seg
                  \<and> 0 < get_length_no_overlap start_seg (overlap g)
                  \<and> 0 < get_length_no_overlap end_seg (overlap g)
                  \<and> list_all (\<lambda>x. segments g \<bar>x\<bar> \<noteq> None) internal
                  \<longrightarrow> (\<exists>b. create_spades_contig_bridges g single_copy_segments verbosity
                             = Inr [b]
                           \<and> start_segment b = Some start \<and> graph_path b = internal
                           \<and> end_segment b = Some end'))"
    by blast
  with one two final_bridge_paths_filter [OF assms] show ?thesis by (intro conjI)
qed

theorem conflict_filter_characterisation_witness:
  "final_bridge_paths [[1, 2, 5], [1, 3, 5], [3, 5, - 3], [7, 8, 9]] = Inr [[7, 8, 9]]
   \<and> (\<exists>b. create_spades_contig_bridges chain_graph
             [example_segment 1 10 100, example_segment 2 10 100] 0 = Inr [b]
        \<and> start_segment b = Some 1 \<and> graph_path b = [4] \<and> end_segment b = Some 2)"
proof -
  have a: "list_all (\<lambda>p. p \<noteq> []) [[1, 2, 5], [1, 3, 5], [3, 5, - 3], [7, 8, 9 :: int]]"
    by simp
  have b: "distinct [[1, 2, 5], [1, 3, 5], [3, 5, - 3], [7, 8, 9 :: int]]" by simp
  note t = conflict_filter_characterisation
             [OF a b, of chain_graph "[example_segment 1 10 100, example_segment 2 10 100]" 0]
  from t [THEN conjunct1]
  have f: "final_bridge_paths [[1, 2, 5], [1, 3, 5], [3, 5, - 3], [7, 8, 9]] = Inr [[7, 8, 9]]"
    by simp
  from t [THEN conjunct2, THEN conjunct2, THEN conjunct2] obtain S l where
    S: "collect_bridge_paths chain_graph
          [example_segment 1 10 100, example_segment 2 10 100] = Inr S"
    and l: "bridge_path_list_of S = Inr l"
    and lone: "\<forall>start internal end' start_seg end_seg.
       l = [start # internal @ [end']] \<and> start \<noteq> - end'
       \<and> segments chain_graph \<bar>start\<bar> = Some start_seg
       \<and> segments chain_graph \<bar>end'\<bar> = Some end_seg
       \<and> 0 < depth start_seg \<and> 0 < depth end_seg
       \<and> 0 < get_length_no_overlap start_seg (overlap chain_graph)
       \<and> 0 < get_length_no_overlap end_seg (overlap chain_graph)
       \<and> list_all (\<lambda>x. segments chain_graph \<bar>x\<bar> \<noteq> None) internal
       \<longrightarrow> (\<exists>b. create_spades_contig_bridges chain_graph
                  [example_segment 1 10 100, example_segment 2 10 100] 0 = Inr [b]
                \<and> start_segment b = Some start \<and> graph_path b = internal
                \<and> end_segment b = Some end')"
    by blast
  from S l chain_path_list have "l = [[1, 4, 2]]" by simp
  with lone [rule_format, of 1 "[4]" 2 "example_segment 1 10 100" "example_segment 2 10 100"]
  have "\<exists>b. create_spades_contig_bridges chain_graph
             [example_segment 1 10 100, example_segment 2 10 100] 0 = Inr [b]
        \<and> start_segment b = Some 1 \<and> graph_path b = [4] \<and> end_segment b = Some 2"
    by (simp add: chain_graph_def example_segment_def)
  with f show ?thesis by simp
qed

subsection \<open>Long read evidence\<close>

lemma grouped_alignments_nonempty_step:
  assumes "list_all (\<lambda>(k, v). v \<noteq> []) d"
  shows "list_all (\<lambda>(k, v). v \<noteq> []) (append_value k x (add_key k d))"
  using assms by (auto simp: list_all_iff set_append_value set_add_key split: if_splits)

lemma grouped_alignments_nonempty_fold:
  assumes "list_all (\<lambda>(k, v). v \<noteq> []) d"
  shows "list_all (\<lambda>(k, v). v \<noteq> [])
           (fold (\<lambda>alignment sc_alignments.
                    let ref_num = number (ref alignment)
                    in if ref_num \<notin> single_copy_num_set then sc_alignments
                       else if scaled_score alignment < min_scaled_score then sc_alignments
                       else append_value ref_num alignment (add_key ref_num sc_alignments))
              as d)"
  using assms
proof (induction as arbitrary: d)
  case Nil
  then show ?case by simp
next
  case (Cons a as)
  show ?case
    using Cons.IH [OF Cons.prems] Cons.IH [OF grouped_alignments_nonempty_step [OF Cons.prems]]
    by (simp add: Let_def)
qed

lemma group_single_copy_alignments_nonempty:
  "list_all (\<lambda>(k, v). v \<noteq> []) (group_single_copy_alignments rd sc min_scaled_score)"
  unfolding group_single_copy_alignments_def
  by (rule grouped_alignments_nonempty_fold) simp

lemma select_alignments_returns:
  assumes "grouped \<noteq> []"
  shows "\<exists>selected. select_alignments allowed_overlap grouped = Inr selected
           \<and> selected \<noteq> [] \<and> length selected \<le> 2
           \<and> hd selected = hd (sort_key (\<lambda>x. - scaled_score x) grouped)"
proof -
  from assms have "length (sort_key (\<lambda>x. - scaled_score x) grouped) \<noteq> 0" by simp
  then obtain best others where "sort_key (\<lambda>x. - scaled_score x) grouped = best # others"
    by (cases "sort_key (\<lambda>x. - scaled_score x) grouped") auto
  then show ?thesis
    by (cases others) (simp_all add: select_alignments_def Let_def)
qed

lemma map_res_returns:
  assumes "list_all (\<lambda>x. \<exists>y. f x = Inr y) xs"
  shows "\<exists>ys. map_res f xs = Inr ys"
  using assms by (induction xs) auto

lemma get_single_copy_alignments_returns:
  "\<exists>selected. get_single_copy_alignments rd sc allowed_overlap min_scaled_score = Inr selected"
proof -
  have "list_all (\<lambda>grouped. \<exists>y. select_alignments allowed_overlap grouped = Inr y)
          (map snd (group_single_copy_alignments rd sc min_scaled_score))"
    unfolding list_all_iff
  proof
    fix grouped
    assume "grouped \<in> set (map snd (group_single_copy_alignments rd sc min_scaled_score))"
    then obtain k where "(k, grouped) \<in> set (group_single_copy_alignments rd sc min_scaled_score)"
      by auto
    with group_single_copy_alignments_nonempty [of rd sc min_scaled_score]
    have "grouped \<noteq> []" by (auto simp: list_all_iff)
    from select_alignments_returns [OF this, of allowed_overlap]
    show "\<exists>y. select_alignments allowed_overlap grouped = Inr y" by blast
  qed
  from map_res_returns [OF this] show ?thesis
    by (auto simp: get_single_copy_alignments_def bind_def)
qed

lemma available_alignments_length:
  "length (fst (fold (add_available_alignment rc rd) xs st)) = length (fst st) + length xs"
  by (induction xs arbitrary: st) (simp_all add: add_available_alignment_def Let_def)

lemma add_overlapping_seqs_returns:
  "available \<noteq> [] \<Longrightarrow> \<exists>ov'. add_overlapping_seqs rc available alignment ov = Inr ov'"
  by (cases available) (simp_all add: add_overlapping_seqs_def Let_def)

lemma process_read_returns:
  "\<exists>st'. process_read rc sc allowed_overlap min_scaled_score rd st = Inr st'"
proof -
  from get_single_copy_alignments_returns obtain selected where
    sel: "get_single_copy_alignments rd sc allowed_overlap min_scaled_score = Inr selected"
    by blast
  show ?thesis
  proof (cases "selected = []")
    case True
    with sel show ?thesis by (simp add: process_read_def bind_def)
  next
    case False
    let ?sorted = "sort_key (\<lambda>x. - raw_score x) selected"
    let ?r = "fold (add_available_alignment rc rd) ?sorted ([], {}, fst st)"
    from False have "length (fst ?r) \<noteq> 0"
      by (simp add: available_alignments_length)
    then have "fst ?r \<noteq> []" by auto
    from add_overlapping_seqs_returns [OF this, of rc "last ?sorted" "snd st"]
    obtain ov' where "add_overlapping_seqs rc (fst ?r) (last ?sorted) (snd st) = Inr ov'"
      by blast
    with sel False show ?thesis
      by (simp add: process_read_def bind_def Let_def split_beta)
  qed
qed

lemma collect_long_read_evidence_fold_returns:
  assumes "list_all (\<lambda>n. read_dict n \<noteq> None) read_name_list"
  shows "\<exists>st'. fold_res
           (\<lambda>read_name st.
              case read_dict read_name of
                None \<Rightarrow> Inl KeyError
              | Some rd \<Rightarrow> process_read rc sc allowed_overlap min_scaled_score rd st)
           read_name_list st = Inr st'"
  using assms
proof (induction read_name_list arbitrary: st)
  case Nil
  then show ?case by simp
next
  case (Cons n ns)
  from Cons.prems obtain rd where rd: "read_dict n = Some rd" by auto
  from process_read_returns obtain st1 where
    "process_read rc sc allowed_overlap min_scaled_score rd st = Inr st1" by blast
  with rd Cons show ?case by simp
qed

text \<open>
  Claim C10, amended. When every read name is a key of the read dictionary,
  \<open>create_long_read_bridges\<close> returns the empty list: no lookup, index or division fails
  on the way, and no long read bridge is constructed.
\<close>

theorem create_long_read_bridges_returns_empty:
  assumes "list_all (\<lambda>n. read_dict n \<noteq> None) read_name_list"
  shows "create_long_read_bridges reverse_complement g read_dict read_name_list
           single_copy_segments verbosity existing_bridges min_scaled_score = Inr []"
proof -
  from collect_long_read_evidence_fold_returns [OF assms] obtain st' where
    "collect_long_read_evidence reverse_complement g read_dict read_name_list
       single_copy_segments min_scaled_score = Inr st'"
    unfolding collect_long_read_evidence_def Let_def by blast
  then show ?thesis by (simp add: create_long_read_bridges_def bind_def)
qed

theorem create_long_read_bridges_returns_empty_witness:
  "create_long_read_bridges example_reverse_complement overlap_5_graph
     [''read_1'' \<mapsto> two_segment_read] [''read_1'']
     [example_segment 5 10 6, example_segment 7 10 6] 0 [] 0 = Inr []"
  using create_long_read_bridges_returns_empty
    [of "[''read_1'' \<mapsto> two_segment_read]" "[''read_1'']"]
  by simp

text \<open>
  Claim C10 as stated fails: \<open>read_dict[read_name]\<close> raises KeyError for a read name
  that is not in the read dictionary, and the function does not return.
\<close>

theorem create_long_read_bridges_missing_read_counterexample:
  "\<not> (\<forall>reverse_complement g read_dict read_name_list single_copy_segments verbosity
         existing_bridges min_scaled_score.
        create_long_read_bridges reverse_complement g read_dict read_name_list
          single_copy_segments verbosity existing_bridges min_scaled_score = Inr [])"
proof
  assume "\<forall>reverse_complement g read_dict read_name_list single_copy_segments verbosity
         existing_bridges min_scaled_score.
        create_long_read_bridges reverse_complement g read_dict read_name_list
          single_copy_segments verbosity existing_bridges min_scaled_score = Inr []"
  then have "create_long_read_bridges example_reverse_complement overlap_5_graph Map.empty
               [''read_1''] [] 0 [] 0 = Inr []"
    by blast
  moreover have "create_long_read_bridges example_reverse_complement overlap_5_graph Map.empty
               [''read_1''] [] 0 [] 0 = Inl KeyError"
    by (simp add: create_long_read_bridges_def collect_long_read_evidence_def bind_def)
  ultimately show False by simp
qed

lemma select_alignments_second:
  assumes "sort_key (\<lambda>x. - scaled_score x) grouped = best # second # others"
  shows "select_alignments allowed_overlap grouped =
           Inr (if get_aligned_ref_length best + get_aligned_ref_length second
                     \<le> get_length (ref best) + allowed_overlap
                   \<and> ((0 < ref_start_pos best \<and> 0 < ref_end_gap second)
                       \<or> (0 < ref_end_gap best \<and> 0 < ref_start_pos second))
                then [best, second] else [best])"
  using assms by (simp add: select_alignments_def Let_def)

lemma allowed_overlap_le_rounded:
  assumes "0 \<le> overlap g"
  shows "allowed_overlap_of g \<le> py_round (11 / 10 * of_int (overlap g))"
proof -
  let ?x = "11 / 10 * real_of_int (overlap g)"
  from assms have x: "0 \<le> ?x" by simp
  then have "0 \<le> \<lfloor>?x\<rfloor>" by simp
  then have "allowed_overlap_of g = \<lfloor>?x\<rfloor>"
    using x by (simp add: allowed_overlap_of_def py_int_def py_round_def)
  moreover have "\<lfloor>?x\<rfloor> \<le> \<lfloor>?x + 1 / 2\<rfloor>" by (intro floor_mono) simp
  ultimately show ?thesis using x by (simp add: py_round_def)
qed

lemma map_of_add_key:
  "map_of (add_key k d) k' = (if k' = k \<and> k \<notin> fst ` set d then Some [] else map_of d k')"
proof (cases "k \<in> fst ` set d")
  case True
  then show ?thesis by (simp add: add_key_def)
next
  case False
  then have "map_of d k = None" by (simp add: map_of_eq_None_iff)
  with False show ?thesis
    by (cases "map_of d k'") (auto simp: add_key_def map_add_def)
qed

lemma map_of_append_value:
  "map_of (append_value k x d) k'
     = (if k' = k then map_option (\<lambda>xs. xs @ [x]) (map_of d k) else map_of d k')"
  by (induction d) (auto simp: append_value_def)

lemma keys_list_add_key:
  "map fst (add_key k d) = (if k \<in> fst ` set d then map fst d else map fst d @ [k])"
  by (simp add: add_key_def)

lemma keys_list_append_value: "map fst (append_value k x d) = map fst d"
  by (induction d) (auto simp: append_value_def)

lemma grouped_alignments_fold:
  assumes "distinct (map fst d)"
    and "\<And>k. map_of d k
           = (if filter (\<lambda>a. number (ref a) = k \<and> k \<in> sc \<and> \<not> scaled_score a < m) pre = []
              then None
              else Some (filter (\<lambda>a. number (ref a) = k \<and> k \<in> sc \<and> \<not> scaled_score a < m) pre))"
  shows "distinct (map fst (fold (\<lambda>alignment sc_alignments.
                    let ref_num = number (ref alignment)
                    in if ref_num \<notin> sc then sc_alignments
                       else if scaled_score alignment < m then sc_alignments
                       else append_value ref_num alignment (add_key ref_num sc_alignments))
              as d))
       \<and> (\<forall>k. map_of (fold (\<lambda>alignment sc_alignments.
                    let ref_num = number (ref alignment)
                    in if ref_num \<notin> sc then sc_alignments
                       else if scaled_score alignment < m then sc_alignments
                       else append_value ref_num alignment (add_key ref_num sc_alignments))
              as d) k
           = (if filter (\<lambda>a. number (ref a) = k \<and> k \<in> sc \<and> \<not> scaled_score a < m) (pre @ as) = []
              then None
              else Some (filter (\<lambda>a. number (ref a) = k \<and> k \<in> sc \<and> \<not> scaled_score a < m)
                           (pre @ as))))"
  using assms
proof (induction as arbitrary: d pre)
  case Nil
  then show ?case by simp
next
  case (Cons a as)
  let ?P = "\<lambda>k a. number (ref a) = k \<and> k \<in> sc \<and> \<not> scaled_score a < m"
  show ?case
  proof (cases "number (ref a) \<in> sc \<and> \<not> scaled_score a < m")
    case False
    then have "filter (?P k) (pre @ [a]) = filter (?P k) pre" for k by auto
    with Cons.prems(2) have
      "map_of d k = (if filter (?P k) (pre @ [a]) = [] then None
                     else Some (filter (?P k) (pre @ [a])))" for k
      by simp
    from Cons.IH [of d "pre @ [a]", OF Cons.prems(1) this] False
    show ?thesis by (auto simp: Let_def)
  next
    case True
    let ?k = "number (ref a)"
    let ?d = "append_value ?k a (add_key ?k d)"
    have dist: "distinct (map fst ?d)"
      using Cons.prems(1) by (simp add: keys_list_append_value keys_list_add_key)
    have key: "?k \<in> fst ` set d \<longleftrightarrow> filter (?P ?k) pre \<noteq> []"
      using Cons.prems(2) [of ?k] map_of_eq_None_iff [of d ?k]
      by (cases "filter (?P ?k) pre = []") simp_all
    have "map_of ?d k = (if filter (?P k) (pre @ [a]) = [] then None
                     else Some (filter (?P k) (pre @ [a])))" for k
    proof (cases "k = ?k")
      case False
      then have "filter (?P k) (pre @ [a]) = filter (?P k) pre" by auto
      with False Cons.prems(2) [of k] show ?thesis
        by (simp add: map_of_append_value map_of_add_key)
    next
      case k: True
      from True have f: "filter (?P ?k) (pre @ [a]) = filter (?P ?k) pre @ [a]" by simp
      show ?thesis
      proof (cases "filter (?P ?k) pre = []")
        case True
        with key have "?k \<notin> fst ` set d" by simp
        with k f True show ?thesis
          by (simp add: map_of_append_value map_of_add_key)
      next
        case False
        with key have "?k \<in> fst ` set d" by simp
        with k f False Cons.prems(2) [of ?k] show ?thesis
          by (simp add: map_of_append_value map_of_add_key)
      qed
    qed
    from Cons.IH [of ?d "pre @ [a]", OF dist this] True
    show ?thesis by (simp add: Let_def)
  qed
qed

lemma group_single_copy_alignments_map_of:
  "distinct (map fst (group_single_copy_alignments rd sc m))
   \<and> (\<forall>k. map_of (group_single_copy_alignments rd sc m) k
           = (if filter (\<lambda>a. number (ref a) = k \<and> k \<in> sc \<and> \<not> scaled_score a < m)
                   (alignments rd) = []
              then None
              else Some (filter (\<lambda>a. number (ref a) = k \<and> k \<in> sc \<and> \<not> scaled_score a < m)
                           (alignments rd))))"
  unfolding group_single_copy_alignments_def
  using grouped_alignments_fold [of "[]" sc m "[]" "alignments rd"]
  by simp


lemma select_alignments_result:
  assumes "grouped \<noteq> []"
  shows "\<exists>selected. select_alignments allowed_overlap grouped = Inr selected
           \<and> set selected \<subseteq> set grouped
           \<and> selected \<noteq> [] \<and> length selected \<le> 2
           \<and> hd selected = hd (sort_key (\<lambda>x. - scaled_score x) grouped)
           \<and> (\<forall>a \<in> set grouped. scaled_score a \<le> scaled_score (hd selected))
           \<and> (length selected = 2 \<longrightarrow>
                2 \<le> length grouped
                \<and> selected ! 1 = sort_key (\<lambda>x. - scaled_score x) grouped ! 1
                \<and> get_aligned_ref_length (selected ! 0) + get_aligned_ref_length (selected ! 1)
                    \<le> get_length (ref (selected ! 0)) + allowed_overlap
                \<and> ((0 < ref_start_pos (selected ! 0) \<and> 0 < ref_end_gap (selected ! 1))
                    \<or> (0 < ref_end_gap (selected ! 0) \<and> 0 < ref_start_pos (selected ! 1))))"
proof -
  let ?ranked = "sort_key (\<lambda>x. - scaled_score x) grouped"
  from assms have "length ?ranked \<noteq> 0" by simp
  then obtain best others where r: "?ranked = best # others"
    by (cases ?ranked) auto
  have s: "set ?ranked = set grouped" by simp
  have len: "length ?ranked = length grouped" by simp
  have "sorted (map (\<lambda>x. - scaled_score x) ?ranked)" by (rule sorted_sort_key)
  with r have "\<forall>a \<in> set others. scaled_score a \<le> scaled_score best" by simp
  with r s have best: "\<forall>a \<in> set grouped. scaled_score a \<le> scaled_score best" by auto
  show ?thesis
  proof (cases others)
    case Nil
    with r s best show ?thesis by (auto simp: select_alignments_def)
  next
    case (Cons second rest)
    with r len have "2 \<le> length grouped" by simp
    moreover from r Cons s have "best \<in> set grouped" "second \<in> set grouped" by auto
    ultimately show ?thesis
      using select_alignments_second [of grouped best second rest allowed_overlap] r Cons best
      by simp
  qed
qed

lemma retained_per_reference:
  assumes "distinct (map fst d)"
    and "\<And>k v. (k, v) \<in> set d \<Longrightarrow> v \<noteq> [] \<and> (\<forall>a \<in> set v. number (ref a) = k)"
  shows "\<exists>selected. map_res (select_alignments allowed_overlap) (map snd d) = Inr selected
           \<and> (\<forall>n. filter (\<lambda>a. number (ref a) = n) (concat selected)
                  = (case map_of d n of
                       None \<Rightarrow> []
                     | Some v \<Rightarrow> projr (select_alignments allowed_overlap v)))"
  using assms
proof (induction d)
  case Nil
  then show ?case by simp
next
  case (Cons kv d)
  obtain k v where kv: "kv = (k, v)" by (cases kv)
  from Cons.prems(2) [of k v] kv have v: "v \<noteq> []" "\<forall>a \<in> set v. number (ref a) = k"
    by simp_all
  from select_alignments_result [OF v(1), of allowed_overlap] obtain s where
    s: "select_alignments allowed_overlap v = Inr s" "set s \<subseteq> set v" by blast
  from Cons.prems(1) have d: "distinct (map fst d)" by simp
  have "v \<noteq> [] \<and> (\<forall>a \<in> set v. number (ref a) = k)" if "(k, v) \<in> set d" for k v
    using Cons.prems(2) [of k v] that by simp
  from Cons.IH [OF d this] obtain selected where
    sel: "map_res (select_alignments allowed_overlap) (map snd d) = Inr selected"
    and f: "\<And>n. filter (\<lambda>a. number (ref a) = n) (concat selected)
                  = (case map_of d n of
                       None \<Rightarrow> []
                     | Some v \<Rightarrow> projr (select_alignments allowed_overlap v))"
    by blast
  from Cons.prems(1) kv have "map_of d k = None" by (simp add: map_of_eq_None_iff)
  with f [of k] have fk: "filter (\<lambda>a. number (ref a) = k) (concat selected) = []" by simp
  from s(2) v(2) have same: "filter (\<lambda>a. number (ref a) = k) s = s" by (auto simp: filter_id_conv)
  from s(2) v(2) have other: "n \<noteq> k \<Longrightarrow> filter (\<lambda>a. number (ref a) = n) s = []" for n
    by (auto simp: filter_empty_conv)
  have "filter (\<lambda>a. number (ref a) = n) (concat (s # selected))
          = (case map_of (kv # d) n of
               None \<Rightarrow> []
             | Some v \<Rightarrow> projr (select_alignments allowed_overlap v))" for n
  proof (cases "n = k")
    case True
    with kv s(1) fk same show ?thesis by simp
  next
    case False
    with kv f [of n] other [of n] show ?thesis by simp
  qed
  moreover from kv s(1) sel
  have "map_res (select_alignments allowed_overlap) (map snd (kv # d)) = Inr (s # selected)"
    by simp
  ultimately show ?case by blast
qed

text \<open>
  The allowed overlap of the code is \<open>round(int(1.1 * graph.overlap))\<close>: the product is
  truncated before it is rounded. With an overlap of 5 it is 5 where
  \<open>round(1.1 * graph.overlap)\<close> is 6, and the second alignment of \<open>wrap_around_read\<close>
  (combined aligned length 1006 on a segment of length 1000) is not retained. For an
  overlap that is not negative the allowed overlap of the code is never above
  \<open>round(1.1 * graph.overlap)\<close>.
\<close>

lemma allowed_overlap_of_overlap_5:
  "allowed_overlap_of overlap_5_graph = 5
   \<and> py_round (11 / 10 * 5) = 6
   \<and> map_sum id (map get_aligned_ref_length)
        (get_single_copy_alignments wrap_around_read {1} (allowed_overlap_of overlap_5_graph) 0)
      = Inr [600]"
  by code_simp

lemma circular_read_selected:
  "map_sum id (map get_aligned_ref_length)
     (get_single_copy_alignments circular_read {1} (allowed_overlap_of overlap_5_graph) 0)
   = Inr [600, 405]"
  by code_simp

text \<open>
  Claim C7. For a graph whose overlap is not negative, \<open>get_single_copy_alignments\<close>,
  called as \<open>create_long_read_bridges\<close> calls it, returns a list in which, for every
  reference number: nothing is retained when the read has no alignment to that
  reference that is single-copy and reaches the score threshold; otherwise the first
  retained alignment is the best of these candidates (the head of the list sorted by
  descending scaled score, of maximal scaled score), at most two are retained, and when
  two are retained the second is the second best, the two aligned lengths sum to at most
  the segment length plus \<open>round(1.1 * graph.overlap)\<close>, and the two alignments leave
  gaps at opposite ends of the reference.
\<close>

theorem second_alignment_only_for_wrap_around:
  assumes "0 \<le> overlap g"
  shows "\<exists>final_alignments.
           get_single_copy_alignments rd single_copy_num_set (allowed_overlap_of g)
             min_scaled_score = Inr final_alignments
         \<and> (\<forall>ref_num.
              let candidates =
                    filter (\<lambda>a. number (ref a) = ref_num \<and> ref_num \<in> single_copy_num_set
                                 \<and> \<not> scaled_score a < min_scaled_score) (alignments rd);
                  ranked = sort_key (\<lambda>x. - scaled_score x) candidates;
                  retained = filter (\<lambda>a. number (ref a) = ref_num) final_alignments
              in (candidates = [] \<longrightarrow> retained = [])
               \<and> (candidates \<noteq> [] \<longrightarrow>
                    retained \<noteq> [] \<and> hd retained = hd ranked
                    \<and> (\<forall>a \<in> set candidates. scaled_score a \<le> scaled_score (hd retained))
                    \<and> length retained \<le> 2
                    \<and> (length retained = 2 \<longrightarrow>
                         2 \<le> length candidates \<and> retained ! 1 = ranked ! 1
                         \<and> get_aligned_ref_length (retained ! 0)
                             + get_aligned_ref_length (retained ! 1)
                           \<le> get_length (ref (retained ! 0))
                               + py_round (11 / 10 * of_int (overlap g))
                         \<and> ((0 < ref_start_pos (retained ! 0) \<and> 0 < ref_end_gap (retained ! 1))
                             \<or> (0 < ref_end_gap (retained ! 0)
                                 \<and> 0 < ref_start_pos (retained ! 1))))))"
proof -
  let ?d = "group_single_copy_alignments rd single_copy_num_set min_scaled_score"
  let ?c = "\<lambda>k. filter (\<lambda>a. number (ref a) = k \<and> k \<in> single_copy_num_set
                                 \<and> \<not> scaled_score a < min_scaled_score) (alignments rd)"
  let ?ao = "allowed_overlap_of g"
  let ?r = "\<lambda>n final. filter (\<lambda>a. number (ref a) = n) final"
  from group_single_copy_alignments_map_of [of rd single_copy_num_set min_scaled_score]
  have dist: "distinct (map fst ?d)"
    and m: "\<And>k. map_of ?d k = (if ?c k = [] then None else Some (?c k))"
    by simp_all
  have groups: "v \<noteq> [] \<and> (\<forall>a \<in> set v. number (ref a) = k)" if "(k, v) \<in> set ?d" for k v
  proof -
    from that dist have "map_of ?d k = Some v" by simp
    with m [of k] have "?c k \<noteq> []" "v = ?c k" by (simp_all split: if_splits)
    then show ?thesis by auto
  qed
  from retained_per_reference [OF dist groups, of ?ao] obtain selected where
    sel: "map_res (select_alignments ?ao) (map snd ?d) = Inr selected"
    and f: "\<And>n. ?r n (concat selected)
                  = (case map_of ?d n of
                       None \<Rightarrow> [] | Some v \<Rightarrow> projr (select_alignments ?ao v))"
    by blast
  from sel have res: "get_single_copy_alignments rd single_copy_num_set ?ao min_scaled_score
                        = Inr (concat selected)"
    by (simp add: get_single_copy_alignments_def bind_def)
  have "(?c n = [] \<longrightarrow> ?r n (concat selected) = [])
      \<and> (?c n \<noteq> [] \<longrightarrow>
           ?r n (concat selected) \<noteq> []
           \<and> hd (?r n (concat selected)) = hd (sort_key (\<lambda>x. - scaled_score x) (?c n))
           \<and> (\<forall>a \<in> set (?c n). scaled_score a \<le> scaled_score (hd (?r n (concat selected))))
           \<and> length (?r n (concat selected)) \<le> 2
           \<and> (length (?r n (concat selected)) = 2 \<longrightarrow>
                2 \<le> length (?c n)
                \<and> ?r n (concat selected) ! 1 = sort_key (\<lambda>x. - scaled_score x) (?c n) ! 1
                \<and> get_aligned_ref_length (?r n (concat selected) ! 0)
                    + get_aligned_ref_length (?r n (concat selected) ! 1)
                  \<le> get_length (ref (?r n (concat selected) ! 0))
                      + py_round (11 / 10 * of_int (overlap g))
                \<and> ((0 < ref_start_pos (?r n (concat selected) ! 0)
                      \<and> 0 < ref_end_gap (?r n (concat selected) ! 1))
                    \<or> (0 < ref_end_gap (?r n (concat selected) ! 0)
                        \<and> 0 < ref_start_pos (?r n (concat selected) ! 1)))))" for n
  proof (cases "?c n = []")
    case True
    with f [of n] m [of n] show ?thesis by simp
  next
    case False
    from select_alignments_result [OF False, of ?ao] obtain s where
      s: "select_alignments ?ao (?c n) = Inr s" "s \<noteq> []" "length s \<le> 2"
        "hd s = hd (sort_key (\<lambda>x. - scaled_score x) (?c n))"
        "\<forall>a \<in> set (?c n). scaled_score a \<le> scaled_score (hd s)"
        "length s = 2 \<longrightarrow>
                2 \<le> length (?c n)
                \<and> s ! 1 = sort_key (\<lambda>x. - scaled_score x) (?c n) ! 1
                \<and> get_aligned_ref_length (s ! 0) + get_aligned_ref_length (s ! 1)
                    \<le> get_length (ref (s ! 0)) + ?ao
                \<and> ((0 < ref_start_pos (s ! 0) \<and> 0 < ref_end_gap (s ! 1))
                    \<or> (0 < ref_end_gap (s ! 0) \<and> 0 < ref_start_pos (s ! 1)))"
      by blast
    from f [of n] m [of n] False s(1)
    have eq: "?r n (concat selected) = s" by simp
    from s(6) allowed_overlap_le_rounded [OF assms]
    have "length s = 2 \<longrightarrow>
                2 \<le> length (?c n)
                \<and> s ! 1 = sort_key (\<lambda>x. - scaled_score x) (?c n) ! 1
                \<and> get_aligned_ref_length (s ! 0) + get_aligned_ref_length (s ! 1)
                    \<le> get_length (ref (s ! 0)) + py_round (11 / 10 * of_int (overlap g))
                \<and> ((0 < ref_start_pos (s ! 0) \<and> 0 < ref_end_gap (s ! 1))
                    \<or> (0 < ref_end_gap (s ! 0) \<and> 0 < ref_start_pos (s ! 1)))"
      by linarith
    with False s(2,3,4,5) show ?thesis unfolding eq by blast
  qed
  with res show ?thesis unfolding Let_def by blast
qed

theorem second_alignment_only_for_wrap_around_witness:
  "0 \<le> overlap overlap_5_graph
   \<and> (\<exists>final_alignments.
        get_single_copy_alignments circular_read {1} (allowed_overlap_of overlap_5_graph) 0
          = Inr final_alignments
      \<and> map get_aligned_ref_length final_alignments = [600, 405]
      \<and> get_aligned_ref_length (final_alignments ! 0) + get_aligned_ref_length (final_alignments ! 1)
          \<le> get_length (ref (final_alignments ! 0))
              + py_round (11 / 10 * of_int (overlap overlap_5_graph))
      \<and> 0 < ref_start_pos (final_alignments ! 0) \<and> 0 < ref_end_gap (final_alignments ! 1))"
proof -
  have ov: "0 \<le> overlap overlap_5_graph" by (simp add: overlap_5_graph_def)
  from second_alignment_only_for_wrap_around [OF ov, of circular_read "{1}" 0]
  obtain final_alignments where
    r: "get_single_copy_alignments circular_read {1} (allowed_overlap_of overlap_5_graph) 0
          = Inr final_alignments"
    and c: "\<forall>ref_num.
              let candidates =
                    filter (\<lambda>a. number (ref a) = ref_num \<and> ref_num \<in> {1}
                                 \<and> \<not> scaled_score a < 0) (alignments circular_read);
                  ranked = sort_key (\<lambda>x. - scaled_score x) candidates;
                  retained = filter (\<lambda>a. number (ref a) = ref_num) final_alignments
              in (candidates = [] \<longrightarrow> retained = [])
               \<and> (candidates \<noteq> [] \<longrightarrow>
                    retained \<noteq> [] \<and> hd retained = hd ranked
                    \<and> (\<forall>a \<in> set candidates. scaled_score a \<le> scaled_score (hd retained))
                    \<and> length retained \<le> 2
                    \<and> (length retained = 2 \<longrightarrow>
                         2 \<le> length candidates \<and> retained ! 1 = ranked ! 1
                         \<and> get_aligned_ref_length (retained ! 0)
                             + get_aligned_ref_length (retained ! 1)
                           \<le> get_length (ref (retained ! 0))
                               + py_round (11 / 10 * of_int (overlap overlap_5_graph))
                         \<and> ((0 < ref_start_pos (retained ! 0) \<and> 0 < ref_end_gap (retained ! 1))
                             \<or> (0 < ref_end_gap (retained ! 0)
                                 \<and> 0 < ref_start_pos (retained ! 1)))))"
    by blast
  from r circular_read_selected
  have lens: "map get_aligned_ref_length final_alignments = [600, 405]" by simp
  have "final_alignments
          = [example_alignment (example_segment 1 10 1000) 1 600 (9 / 10) (0, 600) (400, 0)
               ('''', ''''),
             example_alignment (example_segment 1 10 1000) 1 400 (8 / 10) (600, 1005) (0, 595)
               ('''', '''')]"
    using r
    by (simp add: get_single_copy_alignments_def group_single_copy_alignments_def
        circular_read_def example_alignment_def example_segment_def add_key_def
        append_value_def select_alignments_def allowed_overlap_of_def overlap_5_graph_def
        py_round_def py_int_def bind_def Let_def)
  with c [rule_format, of 1] lens ov r show ?thesis
    by (simp add: circular_read_def example_alignment_def example_segment_def Let_def)
qed

lemma add_overlapping_seqs_start_key:
  assumes "available = first # others"
    and "get_start_overlapping_read_seq first \<noteq> []"
    and "get_end_overlapping_read_seq (last available) = []"
  shows "add_overlapping_seqs rc available alignment overlapping =
           Inr (dict_append (- get_signed_ref_num alignment)
                  (rc (get_start_overlapping_read_seq first)) overlapping)"
  using assms by (simp add: add_overlapping_seqs_def Let_def)

text \<open>
  Claim C9. The start overlap is claimed to be recorded under the negation of the first
  alignment's signed reference number. In \<open>two_segment_read\<close> the first alignment of the
  working list is the one to segment 5 and the read has four bases before it; the code
  takes the key from the loop variable \<open>alignment\<close>, the alignment of lowest raw score
  (to segment 7), and records the overlap under -7; nothing is recorded under -5.
\<close>

theorem start_overlap_keyed_by_lowest_scoring_alignment:
  "map get_signed_ref_num
     (sort_key read_start_positive_strand (alignments two_segment_read)) = [5, 7]
   \<and> map_sum id (\<lambda>(spanning, overlapping). (overlapping (- 7), overlapping (- 5)))
       (collect_long_read_evidence example_reverse_complement overlap_5_graph
          [''read_1'' \<mapsto> two_segment_read] [''read_1'']
          [example_segment 5 10 6, example_segment 7 10 6] 0)
     = Inr (Some [''CGTT''], None)"
  by code_simp

subsection \<open>Loop unrolling builder\<close>

lemma double_loop_unrolled:
  "map_sum id (map graph_path)
     (create_loop_unrolling_bridges double_loop_graph
        [example_segment 1 10 100, example_segment 2 10 100] 0)
   = Inr [[4, 3, 4, 3, 4]]"
proof -
  have est: "loop_depth_estimates double_loop_graph 1 2 3 4 = Inr (1, 10, 2)"
    by (simp add: eval_defs double_loop_graph_def)
  have "loop_count_of 2 = 2" by (simp add: loop_count_of_def py_round_def)
  with LoopUnrollingBridge_from_estimates [OF est] show ?thesis
    by (simp add: create_loop_unrolling_bridges_def unroll_simple_loop_def bind_def
        double_loop_graph_def flip_path_def unrolled_path_eq numeral_2_eq_2)
qed

subsection \<open>Quality bounds\<close>

lemma LoopUnrollingBridge_quality:
  assumes b: "LoopUnrollingBridge g start end' middle repeat = Inr b"
    and est: "loop_depth_estimates g start end' middle repeat = Inr (da, d, e)"
  shows "quality b = 10 * (da * da) * closeness_to_whole_num e * sqrt (1 / of_int (loop_count_of e))"
  using b LoopUnrollingBridge_from_estimates [OF est] by auto

lemma LoopUnrollingBridge_quality_le_10:
  assumes b: "LoopUnrollingBridge g start end' middle repeat = Inr b"
  shows "quality b \<le> 10"
proof -
  from LoopUnrollingBridge_estimates [OF b] obtain da d e where
    est: "loop_depth_estimates g start end' middle repeat = Inr (da, d, e)" by blast
  from loop_depth_estimates_agreement [OF est] have "0 \<le> da" "da \<le> 1" by simp_all
  from loop_quality_le_10 [OF this, of e] LoopUnrollingBridge_quality [OF b est]
  show ?thesis by simp
qed

lemma map_res_list_all:
  assumes "map_res f xs = Inr ys" and "\<And>x y. f x = Inr y \<Longrightarrow> P y"
  shows "list_all P ys"
  using assms(1)
proof (induction xs arbitrary: ys)
  case Nil
  then show ?case by simp
next
  case (Cons x xs)
  from Cons.prems obtain y ys' where y: "f x = Inr y" and ys': "map_res f xs = Inr ys'"
    and ys: "ys = y # ys'"
    by (auto split: sum.splits)
  from assms(2) [OF y] Cons.IH [OF ys'] ys show ?case by simp
qed

lemma create_spades_contig_bridges_quality:
  assumes "create_spades_contig_bridges g single_copy_segments verbosity = Inr bs"
  shows "list_all (\<lambda>b. 0 \<le> quality b \<and> quality b \<le> 20) bs"
proof -
  from assms obtain final where "map_res (SpadesContigBridge g) final = Inr bs"
    by (auto simp: create_spades_contig_bridges_def bind_Inr_iff)
  then show ?thesis by (rule map_res_list_all) (rule SpadesContigBridge_quality)
qed

lemma fold_res_invariant:
  assumes "fold_res f xs s = Inr s'" and "I s"
    and "\<And>x s s'. f x s = Inr s' \<Longrightarrow> I s \<Longrightarrow> I s'"
  shows "I s'"
  using assms(1,2)
proof (induction xs arbitrary: s)
  case Nil
  then show ?case by simp
next
  case (Cons x xs)
  from Cons.prems(1) obtain s1 where s1: "f x s = Inr s1" and rest: "fold_res f xs s1 = Inr s'"
    by (auto split: sum.splits)
  from assms(3) [OF s1 Cons.prems(2)] have "I s1" .
  from Cons.IH [OF rest this] show ?case .
qed

lemma unroll_simple_loop_quality:
  assumes "unroll_simple_loop g simple_loop st = Inr st'"
    and "list_all (\<lambda>b. quality b \<le> 10) (fst st)"
  shows "list_all (\<lambda>b. quality b \<le> 10) (fst st')"
proof -
  obtain start end' middle repeat where l: "simple_loop = (start, end', middle, repeat)"
    by (cases simple_loop) auto
  let ?j = "joined_after_paths start end' middle (map snd (paths g)) (snd st)"
  show ?thesis
  proof (cases ?j)
    case None
    with assms(1) l show ?thesis by (simp add: unroll_simple_loop_def)
  next
    case (Some joined)
    show ?thesis
    proof (cases joined)
      case False
      with assms l Some show ?thesis by (auto simp: unroll_simple_loop_def)
    next
      case True
      with assms(1) l Some obtain b where
        b: "LoopUnrollingBridge g start end' middle repeat = Inr b" and st': "fst st' = fst st @ [b]"
        by (auto simp: unroll_simple_loop_def bind_Inr_iff)
      from LoopUnrollingBridge_quality_le_10 [OF b] assms(2) st' show ?thesis by simp
    qed
  qed
qed

lemma create_loop_unrolling_bridges_quality:
  assumes "create_loop_unrolling_bridges g single_copy_segments verbosity = Inr bs"
  shows "list_all (\<lambda>b. quality b \<le> 10) bs"
proof -
  from assms obtain st where
    st: "fold_res (unroll_simple_loop g) (find_all_simple_loops g) ([], None) = Inr st"
    and bs: "bs = fst st"
    by (auto simp: create_loop_unrolling_bridges_def bind_Inr_iff)
  have "list_all (\<lambda>b. quality b \<le> 10) (fst st)"
    by (rule fold_res_invariant [OF st, where I = "\<lambda>st. list_all (\<lambda>b. quality b \<le> 10) (fst st)"])
      (simp_all add: unroll_simple_loop_quality)
  with bs show ?thesis by simp
qed

text \<open>
  Claim C2 as stated fails: with end points of positive depth and positive
  overlap-excluded length, the loop unrolling bridge of \<open>shallow_loop_graph\<close> has quality
  \<open>-4\<close>, since the closeness factor is the mean loop count \<open>-0.4\<close> itself.
\<close>

theorem loop_quality_negative_counterexample:
  "\<not> (\<forall>g start end' middle repeat start_seg end_seg b.
        segments g \<bar>start\<bar> = Some start_seg \<and> segments g \<bar>end'\<bar> = Some end_seg
        \<and> 0 < depth start_seg \<and> 0 < depth end_seg
        \<and> 0 < get_length_no_overlap start_seg (overlap g)
        \<and> 0 < get_length_no_overlap end_seg (overlap g)
        \<and> LoopUnrollingBridge g start end' middle repeat = Inr b
        \<longrightarrow> 0 \<le> quality b \<and> quality b \<le> 10)"
proof
  assume claim: "\<forall>g start end' middle repeat start_seg end_seg b.
        segments g \<bar>start\<bar> = Some start_seg \<and> segments g \<bar>end'\<bar> = Some end_seg
        \<and> 0 < depth start_seg \<and> 0 < depth end_seg
        \<and> 0 < get_length_no_overlap start_seg (overlap g)
        \<and> 0 < get_length_no_overlap end_seg (overlap g)
        \<and> LoopUnrollingBridge g start end' middle repeat = Inr b
        \<longrightarrow> 0 \<le> quality b \<and> quality b \<le> 10"
  from shallow_loop_bridge obtain b where
    b: "LoopUnrollingBridge shallow_loop_graph 1 2 3 4 = Inr b" and q: "quality b = - 4"
    by blast
  have "segments shallow_loop_graph \<bar>1\<bar> = Some (example_segment 1 10 100)"
       "segments shallow_loop_graph \<bar>2\<bar> = Some (example_segment 2 10 100)"
       "0 < depth (example_segment 1 10 100)" "0 < depth (example_segment 2 10 100)"
       "0 < get_length_no_overlap (example_segment 1 10 100) (overlap shallow_loop_graph)"
       "0 < get_length_no_overlap (example_segment 2 10 100) (overlap shallow_loop_graph)"
    by (simp_all add: shallow_loop_graph_def example_segment_def)
  with claim b have "0 \<le> quality b" by blast
  with q show False by simp
qed

text \<open>
  Claim C2, amended. The quality of a constructed contig bridge lies in [0, 20], and so
  does the quality of every bridge that \<open>create_spades_contig_bridges\<close> returns; the
  quality of a constructed loop unrolling bridge is at most 10, and so is the quality of
  every bridge that \<open>create_loop_unrolling_bridges\<close> returns; the quality of a loop
  unrolling bridge is non-negative when the mean loop count is non-negative, and negative
  when the mean loop count is negative and the depth agreement of the end points is not
  zero; a long read bridge has quality 1.
\<close>

theorem bridge_quality_bounds:
  "(SpadesContigBridge g p = Inr b \<longrightarrow> 0 \<le> quality b \<and> quality b \<le> 20)
   \<and> (create_spades_contig_bridges g single_copy_segments verbosity = Inr bs
        \<longrightarrow> list_all (\<lambda>b. 0 \<le> quality b \<and> quality b \<le> 20) bs)
   \<and> (LoopUnrollingBridge g' start end' middle repeat = Inr b' \<longrightarrow> quality b' \<le> 10)
   \<and> (create_loop_unrolling_bridges g' single_copy_segments' verbosity' = Inr bs'
        \<longrightarrow> list_all (\<lambda>b. quality b \<le> 10) bs')
   \<and> (LoopUnrollingBridge g' start end' middle repeat = Inr b'
        \<and> loop_depth_estimates g' start end' middle repeat = Inr (da, d, e)
      \<longrightarrow> (0 \<le> e \<longrightarrow> 0 \<le> quality b') \<and> (e < 0 \<and> da \<noteq> 0 \<longrightarrow> quality b' < 0))
   \<and> quality LongReadBridge = 1"
proof -
  have "(0 \<le> e \<longrightarrow> 0 \<le> quality b') \<and> (e < 0 \<and> da \<noteq> 0 \<longrightarrow> quality b' < 0)"
    if "LoopUnrollingBridge g' start end' middle repeat = Inr b'"
      and "loop_depth_estimates g' start end' middle repeat = Inr (da, d, e)"
    using LoopUnrollingBridge_quality [OF that] loop_quality_ge_0 [of e da]
      loop_quality_negative [of e da] by simp
  moreover have "quality LongReadBridge = 1" by (simp add: LongReadBridge_def)
  ultimately show ?thesis
    using SpadesContigBridge_quality [of g p b]
      create_spades_contig_bridges_quality [of g single_copy_segments verbosity bs]
      LoopUnrollingBridge_quality_le_10 [of g' start end' middle repeat b']
      create_loop_unrolling_bridges_quality [of g' single_copy_segments' verbosity' bs']
    by blast
qed

lemma chain_builder:
  "map_sum id (map graph_path)
     (create_spades_contig_bridges chain_graph
        [example_segment 1 10 100, example_segment 2 10 100] 0) = Inr [[4]]"
  by code_simp

theorem bridge_quality_bounds_witness:
  "(\<exists>b. SpadesContigBridge twice_graph [1, 4, 5, 4, 2] = Inr b \<and> 0 \<le> quality b \<and> quality b \<le> 20)
   \<and> (\<exists>bs. create_spades_contig_bridges chain_graph
               [example_segment 1 10 100, example_segment 2 10 100] 0 = Inr bs
          \<and> length bs = 1 \<and> list_all (\<lambda>b. 0 \<le> quality b \<and> quality b \<le> 20) bs)
   \<and> (\<exists>bs'. create_loop_unrolling_bridges double_loop_graph
               [example_segment 1 10 100, example_segment 2 10 100] 0 = Inr bs'
          \<and> length bs' = 1 \<and> list_all (\<lambda>b. quality b \<le> 10) bs')
   \<and> (\<exists>b' da d e. LoopUnrollingBridge shallow_loop_graph 1 2 3 4 = Inr b'
         \<and> loop_depth_estimates shallow_loop_graph 1 2 3 4 = Inr (da, d, e)
         \<and> e < 0 \<and> da \<noteq> 0 \<and> quality b' < 0 \<and> quality b' \<le> 10)
   \<and> (\<exists>b' da d e. LoopUnrollingBridge double_loop_graph 1 2 3 4 = Inr b'
         \<and> loop_depth_estimates double_loop_graph 1 2 3 4 = Inr (da, d, e)
         \<and> 0 \<le> e \<and> 0 \<le> quality b' \<and> quality b' \<le> 10)"
proof -
  have est: "loop_depth_estimates shallow_loop_graph 1 2 3 4 = Inr (1, 10, - 2 / 5)"
    by (simp add: eval_defs)
  from shallow_loop_bridge obtain b' where
    b': "LoopUnrollingBridge shallow_loop_graph 1 2 3 4 = Inr b'" by blast
  have est2: "loop_depth_estimates double_loop_graph 1 2 3 4 = Inr (1, 10, 2)"
    by (simp add: eval_defs double_loop_graph_def)
  from LoopUnrollingBridge_from_estimates [OF est2] obtain b2 where
    b2: "LoopUnrollingBridge double_loop_graph 1 2 3 4 = Inr b2" by blast
  from chain_builder obtain bs where
    bs: "create_spades_contig_bridges chain_graph
           [example_segment 1 10 100, example_segment 2 10 100] 0 = Inr bs" "length bs = 1"
    by (cases "create_spades_contig_bridges chain_graph
           [example_segment 1 10 100, example_segment 2 10 100] 0") auto
  from double_loop_unrolled obtain bs' where
    bs': "create_loop_unrolling_bridges double_loop_graph
           [example_segment 1 10 100, example_segment 2 10 100] 0 = Inr bs'" "length bs' = 1"
    by (cases "create_loop_unrolling_bridges double_loop_graph
           [example_segment 1 10 100, example_segment 2 10 100] 0") auto
  from bridge_quality_bounds
         [of twice_graph "[1, 4, 5, 4, 2]" _ "[]" 0 "[]" shallow_loop_graph 1 2 3 4 b' "[]" 0 "[]"
            1 10 "- 2 / 5"]
       bridge_quality_bounds
         [of chain_graph "[]" _ "[example_segment 1 10 100, example_segment 2 10 100]" 0 bs
            double_loop_graph 1 2 3 4 b2
            "[example_segment 1 10 100, example_segment 2 10 100]" 0 bs' 1 10 2]
       twice_bridge b' est b2 est2 bs bs'
  show ?thesis by simp
qed

end
